theory Spec2Isabelle
  imports Main "HOL-Library.Word" "HOL-Library.Sublist"
begin

unbundle bit_operations_syntax

section \<open>Machine model\<close>

text \<open>
  The decoder of \<^verbatim>\<open>parseBgpLibMpReach.cpp\<close> walks a raw \<^verbatim>\<open>u_char *\<close>. A pointer is
  modelled by the list of the bytes that can be read at and after it; a read or a
  \<^verbatim>\<open>memcpy\<close> that needs more bytes than the list holds, a \<^verbatim>\<open>memcpy\<close> that writes
  more bytes than its destination array has, and a signed overflow are undefined
  behaviour in C++ and are values of type \<open>error\<close> here.

  Platform: a little-endian host with 32-bit \<^verbatim>\<open>int\<close>, bit-fields allocated from the
  least significant bit (the layout under which the label union of the source decodes
  RFC 3107 labels).
\<close>

type_synonym u_char = "8 word"
type_synonym uint16_t = "16 word"
type_synonym uint32_t = "32 word"

datatype error = OutOfBoundsRead | BufferOverflow | SignedOverflow

definition bzero :: "nat \<Rightarrow> u_char list" where
  "bzero n = replicate n 0"

definition memcpy :: "u_char list \<Rightarrow> u_char list \<Rightarrow> nat \<Rightarrow> error + u_char list" where
  "memcpy dst src n =
     (if length dst < n then Inl BufferOverflow
      else if length src < n then Inl OutOfBoundsRead
      else Inr (take n src @ drop n dst))"

text \<open>
  Modelled from the spec: \<^verbatim>\<open>SWAP_BYTES\<close> is declared in \<^verbatim>\<open>parseBgpLib.h\<close>, which is
  not part of the sources at hand; the spec calls it the change from network to host
  order, which on the little-endian host reverses the bytes of the object.
\<close>

definition SWAP_BYTES :: "u_char list \<Rightarrow> u_char list" where
  "SWAP_BYTES m = rev m"

text \<open>The unsigned value of an object stored at a little-endian address.\<close>

definition load_le :: "u_char list \<Rightarrow> nat" where
  "load_le m = foldr (\<lambda>b acc. unat b + 256 * acc) m 0"

definition load32 :: "u_char list \<Rightarrow> uint32_t" where
  "load32 m = word_of_nat (load_le m)"

definition load16 :: "u_char list \<Rightarrow> uint16_t" where
  "load16 m = word_of_nat (load_le m)"

section \<open>Text output\<close>

text \<open>\<^verbatim>\<open>operator<<\<close> of an unsigned integer on an \<^verbatim>\<open>ostringstream\<close>: decimal digits.\<close>

function dec :: "nat \<Rightarrow> string" where
  "dec n = (if n < 10 then [''0123456789'' ! n]
            else dec (n div 10) @ [''0123456789'' ! (n mod 10)])"
  by pat_completeness auto
termination
  by (relation "measure (\<lambda>n. n)") auto

declare dec.simps [simp del]

datatype address_family = AF_INET | AF_INET6

text \<open>
  \<^verbatim>\<open>inet_ntop\<close> belongs to the C library. For \<^verbatim>\<open>AF_INET\<close> it prints the first four
  bytes of the source as a dotted quad; the text of an \<^verbatim>\<open>AF_INET6\<close> address is left
  to the parameter \<open>ntop6\<close>.
\<close>

definition inet_ntop4 :: "u_char list \<Rightarrow> string" where
  "inet_ntop4 src =
     dec (unat (src ! 0)) @ ''.'' @ dec (unat (src ! 1)) @ ''.'' @
     dec (unat (src ! 2)) @ ''.'' @ dec (unat (src ! 3))"

definition inet_ntop :: "(u_char list \<Rightarrow> string) \<Rightarrow> address_family \<Rightarrow> u_char list \<Rightarrow> string" where
  "inet_ntop ntop6 af src = (case af of AF_INET \<Rightarrow> inet_ntop4 src | AF_INET6 \<Rightarrow> ntop6 src)"

text \<open>\<^verbatim>\<open>std::string(first, last)\<close> over raw bytes.\<close>

definition string_of_bytes :: "u_char list \<Rightarrow> string" where
  "string_of_bytes bs = map (\<lambda>b. char_of (unat b)) bs"

section \<open>Data model\<close>

text \<open>
  Modelled from the spec: the enumerations and structures of \<^verbatim>\<open>parseBgpLib.h\<close> and
  \<^verbatim>\<open>parseBgpLibMpReach.h\<close> are not part of the sources at hand. The address family
  numbers are those of RFC 4760 and RFC 3107 (the spec's example gives IPv4 = 1 and
  unicast = 1); only the keys that the decoder uses are named.
\<close>

definition BGP_AFI_IPV4 :: nat where "BGP_AFI_IPV4 = 1"
definition BGP_AFI_IPV6 :: nat where "BGP_AFI_IPV6 = 2"
definition BGP_AFI_BGPLS :: nat where "BGP_AFI_BGPLS = 16388"
definition BGP_SAFI_UNICAST :: nat where "BGP_SAFI_UNICAST = 1"
definition BGP_SAFI_NLRI_LABEL :: nat where "BGP_SAFI_NLRI_LABEL = 4"
definition ATTR_TYPE_NEXT_HOP :: nat where "ATTR_TYPE_NEXT_HOP = 3"

datatype bgp_lib_nlri =
  LIB_NLRI_PATH_ID | LIB_NLRI_PREFIX_LENGTH | LIB_NLRI_PREFIX | LIB_NLRI_PREFIX_BIN | LIB_NLRI_LABELS

datatype bgp_lib_nlri_type = NLRI_TYPE_NONE

datatype bgp_lib_attrs = LIB_ATTR_NEXT_HOP | LIB_ATTR_OTHER nat

record parse_bgp_lib_nlri =
  nlri_afi :: nat
  nlri_safi :: nat
  nlri_type :: bgp_lib_nlri_type
  nlri :: "bgp_lib_nlri \<rightharpoonup> string list"

record parse_bgp_lib_data =
  official_type :: nat
  attr_name :: string
  attr_value :: "string list"

record parsed_update =
  attrs :: "bgp_lib_attrs \<rightharpoonup> parse_bgp_lib_data"
  nlri_list :: "parse_bgp_lib_nlri list"

record mp_reach_nlri =
  afi :: uint16_t
  safi :: u_char
  nh_len :: u_char
  next_hop :: "u_char list"
  reserved :: u_char
  nlri_data :: "u_char list"
  nlri_len :: uint16_t

text \<open>
  \<^verbatim>\<open>std::map::operator[]\<close> inserts a value-initialised element when the key is
  absent; \<open>nlri_get\<close> and \<open>attrs_get\<close> read through it.
\<close>

definition nlri_get :: "parse_bgp_lib_nlri \<Rightarrow> bgp_lib_nlri \<Rightarrow> string list" where
  "nlri_get e k = (case nlri e k of None \<Rightarrow> [] | Some l \<Rightarrow> l)"

definition nlri_push_back :: "parse_bgp_lib_nlri \<Rightarrow> bgp_lib_nlri \<Rightarrow> string \<Rightarrow> parse_bgp_lib_nlri" where
  "nlri_push_back e k v = e\<lparr>nlri := (nlri e)(k \<mapsto> nlri_get e k @ [v])\<rparr>"

definition attrs_get :: "parsed_update \<Rightarrow> bgp_lib_attrs \<Rightarrow> parse_bgp_lib_data" where
  "attrs_get u k =
     (case attrs u k of
        None \<Rightarrow> \<lparr>official_type = 0, attr_name = [], attr_value = []\<rparr>
      | Some d \<Rightarrow> d)"

section \<open>The path identifier\<close>

text \<open>
  Lines 217 to 225 and 312 to 320. The test \<^verbatim>\<open>(len - read_size) >= 4\<close> is only reached
  under the loop condition \<^verbatim>\<open>read_size < len\<close>, where the unsigned difference does not
  wrap. The answer of \<^verbatim>\<open>parser->getAddpathCapability\<close>, a method of the caller's
  \<^verbatim>\<open>parseBgpLib\<close> object, is the argument \<open>addpath\<close>; the decoders below take the
  method as their parameter \<open>parser\<close>.
\<close>

definition read_path_id ::
  "bool \<Rightarrow> nat \<Rightarrow> nat \<Rightarrow> u_char list \<Rightarrow> error + (uint32_t \<times> u_char list \<times> nat)" where
  "read_path_id addpath len read_size data =
     (if addpath \<and> 4 \<le> len - read_size then
        (case memcpy (bzero 4) data 4 of
           Inl e \<Rightarrow> Inl e
         | Inr m \<Rightarrow> Inr (load32 (SWAP_BYTES m), drop 4 data, read_size + 4))
      else Inr (0, data, read_size))"

section \<open>The unicast NLRI decoder\<close>

definition addr_bytes_of :: "u_char \<Rightarrow> u_char" where
  "addr_bytes_of prefix_len =
     (if prefix_len mod 8 \<noteq> 0 then prefix_len div 8 + 1 else prefix_len div 8)"

definition af_of :: "bool \<Rightarrow> address_family" where
  "af_of isIPv4 = (if isIPv4 then AF_INET else AF_INET6)"

text \<open>Lines 231 to 258: one prefix, after the path identifier has been pushed.\<close>

definition unicast_prefix ::
  "(u_char list \<Rightarrow> string) \<Rightarrow> bool \<Rightarrow> u_char list \<Rightarrow> nat \<Rightarrow> parse_bgp_lib_nlri
     \<Rightarrow> error + (u_char list \<times> nat \<times> parse_bgp_lib_nlri)" where
  "unicast_prefix ntop6 isIPv4 data read_size e =
     (case data of
        [] \<Rightarrow> Inl OutOfBoundsRead
      | prefix_len # data1 \<Rightarrow>
          (let e2 = nlri_push_back e LIB_NLRI_PREFIX_LENGTH (dec (unat prefix_len));
               addr_bytes = addr_bytes_of prefix_len
           in case memcpy (bzero 16) data1 (unat addr_bytes) of
                Inl err \<Rightarrow> Inl err
              | Inr ip_raw \<Rightarrow>
                  (let ip_char = inet_ntop ntop6 (af_of isIPv4) ip_raw;
                       e3 = nlri_push_back e2 LIB_NLRI_PREFIX ip_char;
                       e4 = nlri_push_back e3 LIB_NLRI_PREFIX_BIN (string_of_bytes (take 4 ip_raw))
                   in Inr (drop (unat addr_bytes) data1, read_size + unat addr_bytes, e4))))"

text \<open>Lines 215 to 258: the body of the prefix loop.\<close>

definition unicast_iter ::
  "(u_char list \<Rightarrow> string) \<Rightarrow> (nat \<Rightarrow> nat \<Rightarrow> bool) \<Rightarrow> bool \<Rightarrow> nat \<Rightarrow> u_char list \<Rightarrow> nat
     \<Rightarrow> parse_bgp_lib_nlri \<Rightarrow> error + (u_char list \<times> nat \<times> parse_bgp_lib_nlri)" where
  "unicast_iter ntop6 parser isIPv4 len data read_size e =
     (case read_path_id (parser (nlri_afi e) (nlri_safi e)) len read_size data of
        Inl err \<Rightarrow> Inl err
      | Inr (path_id, data1, read_size1) \<Rightarrow>
          unicast_prefix ntop6 isIPv4 data1 read_size1
            (nlri_push_back e LIB_NLRI_PATH_ID (dec (unat path_id))))"

text \<open>
  Lines 214 to 262: the \<^verbatim>\<open>for\<close> loop. Its increment \<^verbatim>\<open>read_size++\<close> accounts for the
  prefix length octet; the working record \<open>e\<close> is declared before the loop and a copy
  of it is appended on every round.
\<close>

function unicast_loop ::
  "(u_char list \<Rightarrow> string) \<Rightarrow> (nat \<Rightarrow> nat \<Rightarrow> bool) \<Rightarrow> bool \<Rightarrow> nat \<Rightarrow> u_char list \<Rightarrow> nat
     \<Rightarrow> parse_bgp_lib_nlri \<Rightarrow> parse_bgp_lib_nlri list \<Rightarrow> error + parse_bgp_lib_nlri list" where
  "unicast_loop ntop6 parser isIPv4 len data read_size e out =
     (if read_size < len then
        (case unicast_iter ntop6 parser isIPv4 len data read_size e of
           Inl err \<Rightarrow> Inl err
         | Inr (data', read_size', e') \<Rightarrow>
             unicast_loop ntop6 parser isIPv4 len data' (read_size' + 1) e' (out @ [e']))
      else Inr out)"
  by pat_completeness auto
termination
  by (relation "measure (\<lambda>(ntop6, parser, isIPv4, len, data, read_size, e, out). len - read_size)")
     (auto simp: unicast_iter_def unicast_prefix_def read_path_id_def Let_def
           split: sum.splits list.splits if_splits)

declare unicast_loop.simps [simp del]

text \<open>Lines 192 to 263. The pointer argument may be \<^verbatim>\<open>NULL\<close>, which is \<open>None\<close>.\<close>

definition parseNlriData_IPv4IPv6 ::
  "(u_char list \<Rightarrow> string) \<Rightarrow> (nat \<Rightarrow> nat \<Rightarrow> bool) \<Rightarrow> bool \<Rightarrow> u_char list option \<Rightarrow> uint16_t
     \<Rightarrow> parse_bgp_lib_nlri list \<Rightarrow> error + parse_bgp_lib_nlri list" where
  "parseNlriData_IPv4IPv6 ntop6 parser isIPv4 data len out =
     (case data of
        None \<Rightarrow> Inr out
      | Some d \<Rightarrow>
          if len \<le> 0 then Inr out
          else unicast_loop ntop6 parser isIPv4 (unat len) d 0
                 \<lparr>nlri_afi = (if isIPv4 then BGP_AFI_IPV4 else BGP_AFI_IPV6),
                  nlri_safi = BGP_SAFI_UNICAST, nlri_type = NLRI_TYPE_NONE, nlri = Map.empty\<rparr>
                 out)"

section \<open>The labeled unicast NLRI decoder\<close>

text \<open>
  Lines 288 to 298: the label union is four bytes of memory. \<^verbatim>\<open>label.data\<close> is the
  32-bit value stored there; the bit-fields of \<^verbatim>\<open>label.decode\<close> are, from the least
  significant bit, 8 bits of \<^verbatim>\<open>ttl\<close>, 1 bit of \<^verbatim>\<open>bos\<close>, 3 bits of \<^verbatim>\<open>exp\<close> and
  20 bits of \<^verbatim>\<open>value\<close>.
\<close>

definition label_data :: "u_char list \<Rightarrow> uint32_t" where
  "label_data label = load32 label"

definition label_decode_ttl :: "u_char list \<Rightarrow> uint32_t" where
  "label_decode_ttl label = label_data label AND 255"

definition label_decode_bos :: "u_char list \<Rightarrow> uint32_t" where
  "label_decode_bos label = drop_bit 8 (label_data label) AND 1"

definition label_decode_exp :: "u_char list \<Rightarrow> uint32_t" where
  "label_decode_exp label = drop_bit 9 (label_data label) AND 7"

definition label_decode_value :: "u_char list \<Rightarrow> uint32_t" where
  "label_decode_value label = drop_bit 12 (label_data label)"

text \<open>
  Lines 344 to 364: the label loop. \<^verbatim>\<open>memcpy\<close> writes the first three bytes of the
  union, \<^verbatim>\<open>SWAP_BYTES\<close> reverses all four; the union is cleared once per prefix
  (line 330), before the loop, and is carried from one round to the next.
\<close>

function label_loop ::
  "u_char list \<Rightarrow> int \<Rightarrow> u_char \<Rightarrow> u_char list \<Rightarrow> nat \<Rightarrow> parse_bgp_lib_nlri
     \<Rightarrow> error + (u_char list \<times> int \<times> u_char \<times> u_char list \<times> nat \<times> parse_bgp_lib_nlri)" where
  "label_loop data addr_bytes prefix_len label read_size e =
     (if 3 \<le> addr_bytes then
        (case memcpy label data 3 of
           Inl err \<Rightarrow> Inl err
         | Inr label1 \<Rightarrow>
             (let label2 = SWAP_BYTES label1;
                  prefix_len' = prefix_len - 24;
                  e1 = nlri_push_back e LIB_NLRI_PREFIX_LENGTH (dec (unat prefix_len'));
                  e2 = nlri_push_back e1 LIB_NLRI_LABELS (dec (unat (label_decode_value label2)))
              in if label_decode_bos label2 = 1 \<or> label_data label2 = 0x80000000
                 then Inr (drop 3 data, addr_bytes - 3, prefix_len', label2, read_size + 3, e2)
                 else label_loop (drop 3 data) (addr_bytes - 3) prefix_len' label2 (read_size + 3) e2))
      else Inr (data, addr_bytes, prefix_len, label, read_size, e))"
  by pat_completeness auto
termination
  by (relation "measure (\<lambda>(data, addr_bytes, prefix_len, label, read_size, e). nat addr_bytes)") auto

declare label_loop.simps [simp del]

text \<open>
  Lines 330 to 380: one prefix, after the path identifier has been pushed. The byte
  count is an \<^verbatim>\<open>int\<close> here; it never becomes negative, so its conversion to the
  \<^verbatim>\<open>size_t\<close> of \<^verbatim>\<open>memcpy\<close> is \<open>nat\<close>.
\<close>

definition labeled_prefix ::
  "(u_char list \<Rightarrow> string) \<Rightarrow> bool \<Rightarrow> u_char list \<Rightarrow> nat \<Rightarrow> parse_bgp_lib_nlri
     \<Rightarrow> error + (u_char list \<times> nat \<times> parse_bgp_lib_nlri)" where
  "labeled_prefix ntop6 isIPv4 data read_size e =
     (case data of
        [] \<Rightarrow> Inl OutOfBoundsRead
      | prefix_len # data1 \<Rightarrow>
          (let addr_bytes = (if uint prefix_len mod 8 \<noteq> 0 then uint prefix_len div 8 + 1
                             else uint prefix_len div 8)
           in case label_loop data1 addr_bytes prefix_len (bzero 4) read_size e of
                Inl err \<Rightarrow> Inl err
              | Inr (data2, addr_bytes2, prefix_len2, label2, read_size2, e2) \<Rightarrow>
                  (case memcpy (bzero 16) data2 (nat addr_bytes2) of
                     Inl err \<Rightarrow> Inl err
                   | Inr ip_raw \<Rightarrow>
                       (let ip_char = inet_ntop ntop6 (af_of isIPv4) ip_raw;
                            e3 = nlri_push_back e2 LIB_NLRI_PREFIX ip_char;
                            e4 = nlri_push_back e3 LIB_NLRI_PREFIX_BIN
                                   (string_of_bytes (take 4 ip_raw))
                        in Inr (drop (nat addr_bytes2) data2, read_size2 + nat addr_bytes2, e4)))))"

text \<open>
  Lines 310 to 384: the \<^verbatim>\<open>for\<close> loop. \<^verbatim>\<open>parsed_bytes\<close> is set to 0 at line 307 and
  never assigned again.
\<close>

definition parsed_bytes :: int where
  "parsed_bytes = 0"

definition labeled_iter ::
  "(u_char list \<Rightarrow> string) \<Rightarrow> (nat \<Rightarrow> nat \<Rightarrow> bool) \<Rightarrow> bool \<Rightarrow> nat \<Rightarrow> u_char list \<Rightarrow> nat
     \<Rightarrow> parse_bgp_lib_nlri \<Rightarrow> error + (u_char list \<times> nat \<times> parse_bgp_lib_nlri) option" where
  "labeled_iter ntop6 parser isIPv4 len data read_size e =
     (case read_path_id (parser (nlri_afi e) (nlri_safi e)) len read_size data of
        Inl err \<Rightarrow> Inl err
      | Inr (path_id, data1, read_size1) \<Rightarrow>
          (let e1 = nlri_push_back e LIB_NLRI_PATH_ID (dec (unat path_id))
           in if parsed_bytes = int len then Inr None
              else (case labeled_prefix ntop6 isIPv4 data1 read_size1 e1 of
                      Inl err \<Rightarrow> Inl err
                    | Inr r \<Rightarrow> Inr (Some r))))"

function labeled_loop ::
  "(u_char list \<Rightarrow> string) \<Rightarrow> (nat \<Rightarrow> nat \<Rightarrow> bool) \<Rightarrow> bool \<Rightarrow> nat \<Rightarrow> u_char list \<Rightarrow> nat
     \<Rightarrow> parse_bgp_lib_nlri \<Rightarrow> parse_bgp_lib_nlri list \<Rightarrow> error + parse_bgp_lib_nlri list" where
  "labeled_loop ntop6 parser isIPv4 len data read_size e out =
     (if read_size < len then
        (case labeled_iter ntop6 parser isIPv4 len data read_size e of
           Inl err \<Rightarrow> Inl err
         | Inr None \<Rightarrow> Inr out
         | Inr (Some (data', read_size', e')) \<Rightarrow>
             labeled_loop ntop6 parser isIPv4 len data' (read_size' + 1) e' (out @ [e']))
      else Inr out)"
  by pat_completeness auto

termination labeled_loop
proof -
  have label_loop_read_size: "read_size \<le> read_size'"
    if "label_loop data addr_bytes prefix_len label read_size e =
          Inr (data', addr_bytes', prefix_len', label', read_size', e')"
    for data addr_bytes prefix_len label read_size e data' addr_bytes' prefix_len' label'
        read_size' e'
    using that
  proof (induction data addr_bytes prefix_len label read_size e rule: label_loop.induct)
    case (1 data addr_bytes prefix_len label read_size e)
    show ?case
    proof (cases "3 \<le> addr_bytes")
      case False
      with "1.prems" show ?thesis
        by (simp add: label_loop.simps [of data addr_bytes])
    next
      case True
      with "1.prems" "1.IH" show ?thesis
        by (simp add: label_loop.simps [of data addr_bytes] Let_def split: sum.splits if_splits)
           fastforce+
    qed
  qed
  have labeled_prefix_read_size: "read_size \<le> read_size'"
    if "labeled_prefix ntop6 isIPv4 data read_size e = Inr (data', read_size', e')"
    for ntop6 isIPv4 data read_size e data' read_size' e'
    using that unfolding labeled_prefix_def Let_def
    by (auto split: list.splits sum.splits dest!: label_loop_read_size)
  have read_path_id_read_size: "read_size \<le> read_size'"
    if "read_path_id addpath len read_size data = Inr (path_id, data', read_size')"
    for addpath len read_size data path_id data' read_size'
    using that by (auto simp: read_path_id_def split: if_splits sum.splits)
  have labeled_iter_read_size: "read_size \<le> read_size'"
    if "labeled_iter ntop6 parser isIPv4 len data read_size e = Inr (Some (data', read_size', e'))"
    for ntop6 parser isIPv4 len data read_size e data' read_size' e'
    using that unfolding labeled_iter_def Let_def
    by (auto split: sum.splits if_splits
             dest!: labeled_prefix_read_size read_path_id_read_size)
  show ?thesis
    by (relation "measure (\<lambda>(ntop6, parser, isIPv4, len, data, read_size, e, out). len - read_size)")
       (auto dest!: labeled_iter_read_size)
qed

declare labeled_loop.simps [simp del]

text \<open>Lines 276 to 385.\<close>

definition parseNlriData_LabelIPv4IPv6 ::
  "(u_char list \<Rightarrow> string) \<Rightarrow> (nat \<Rightarrow> nat \<Rightarrow> bool) \<Rightarrow> bool \<Rightarrow> u_char list option \<Rightarrow> uint16_t
     \<Rightarrow> parse_bgp_lib_nlri list \<Rightarrow> error + parse_bgp_lib_nlri list" where
  "parseNlriData_LabelIPv4IPv6 ntop6 parser isIPv4 data len out =
     (case data of
        None \<Rightarrow> Inr out
      | Some d \<Rightarrow>
          if len \<le> 0 then Inr out
          else labeled_loop ntop6 parser isIPv4 (unat len) d 0
                 \<lparr>nlri_afi = (if isIPv4 then BGP_AFI_IPV4 else BGP_AFI_IPV6),
                  nlri_safi = BGP_SAFI_NLRI_LABEL, nlri_type = NLRI_TYPE_NONE, nlri = Map.empty\<rparr>
                 out)"

section \<open>Next hop and dispatch\<close>

text \<open>Lines 137 to 140 and 156 to 159: the next hop is copied into the cleared \<^verbatim>\<open>ip_raw\<close>.\<close>

definition next_hop_ip_raw :: "mp_reach_nlri \<Rightarrow> error + u_char list" where
  "next_hop_ip_raw nl =
     (if nh_len nl > 16 then memcpy (bzero 16) (next_hop nl) 16
      else memcpy (bzero 16) (next_hop nl) (unat (nh_len nl)))"

text \<open>Lines 146 to 148 and 166 to 168: the three statements on \<^verbatim>\<open>update.attrs[LIB_ATTR_NEXT_HOP]\<close>.\<close>

definition attrs_next_hop :: "parsed_update \<Rightarrow> string \<Rightarrow> parsed_update" where
  "attrs_next_hop u ip_char =
     (let d = attrs_get u LIB_ATTR_NEXT_HOP;
          d1 = d\<lparr>official_type := ATTR_TYPE_NEXT_HOP\<rparr>;
          d2 = d1\<lparr>attr_name := ''nextHop''\<rparr>;
          d3 = d2\<lparr>attr_value := attr_value d2 @ [ip_char]\<rparr>
      in u\<lparr>attrs := (attrs u)(LIB_ATTR_NEXT_HOP \<mapsto> d3)\<rparr>)"

text \<open>Lines 124 to 179.\<close>

definition parseAfi_IPv4IPv6 ::
  "(u_char list \<Rightarrow> string) \<Rightarrow> (nat \<Rightarrow> nat \<Rightarrow> bool) \<Rightarrow> bool \<Rightarrow> mp_reach_nlri \<Rightarrow> parsed_update
     \<Rightarrow> error + parsed_update" where
  "parseAfi_IPv4IPv6 ntop6 parser isIPv4 nl update =
     (if unat (safi nl) = BGP_SAFI_UNICAST then
        (case next_hop_ip_raw nl of
           Inl err \<Rightarrow> Inl err
         | Inr ip_raw \<Rightarrow>
             (let update1 = attrs_next_hop update (inet_ntop ntop6 (af_of isIPv4) ip_raw)
              in case parseNlriData_IPv4IPv6 ntop6 parser isIPv4 (Some (nlri_data nl)) (nlri_len nl)
                        (nlri_list update1) of
                   Inl err \<Rightarrow> Inl err
                 | Inr out \<Rightarrow> Inr (update1\<lparr>nlri_list := out\<rparr>)))
      else if unat (safi nl) = BGP_SAFI_NLRI_LABEL then
        (case next_hop_ip_raw nl of
           Inl err \<Rightarrow> Inl err
         | Inr ip_raw \<Rightarrow>
             (let update1 = attrs_next_hop update (inet_ntop ntop6 (af_of isIPv4) ip_raw)
              in case parseNlriData_LabelIPv4IPv6 ntop6 parser isIPv4 (Some (nlri_data nl))
                        (nlri_len nl) (nlri_list update1) of
                   Inl err \<Rightarrow> Inl err
                 | Inr out \<Rightarrow> Inr (update1\<lparr>nlri_list := out\<rparr>)))
      else Inr update)"

text \<open>Lines 90 to 113.\<close>

definition parseAfi ::
  "(u_char list \<Rightarrow> string) \<Rightarrow> (nat \<Rightarrow> nat \<Rightarrow> bool) \<Rightarrow> mp_reach_nlri \<Rightarrow> parsed_update
     \<Rightarrow> error + parsed_update" where
  "parseAfi ntop6 parser nl update =
     (if unat (afi nl) = BGP_AFI_IPV6 then parseAfi_IPv4IPv6 ntop6 parser False nl update
      else if unat (afi nl) = BGP_AFI_IPV4 then parseAfi_IPv4IPv6 ntop6 parser True nl update
      else if unat (afi nl) = BGP_AFI_BGPLS then Inr update
      else Inr update)"

section \<open>The attribute header\<close>

text \<open>
  Lines 46 to 78. \<^verbatim>\<open>attr_len\<close> is a 32-bit \<^verbatim>\<open>int\<close> that only decreases, so it
  overflows exactly when its last value is below the least \<^verbatim>\<open>int\<close>; the assignment to
  the 16-bit \<^verbatim>\<open>nlri_len\<close> keeps the low 16 bits.
\<close>

definition parseReachNlriAttr ::
  "(u_char list \<Rightarrow> string) \<Rightarrow> (nat \<Rightarrow> nat \<Rightarrow> bool) \<Rightarrow> int \<Rightarrow> u_char list \<Rightarrow> parsed_update
     \<Rightarrow> error + parsed_update" where
  "parseReachNlriAttr ntop6 parser attr_len data update =
     (case memcpy (bzero 2) data 2 of
        Inl err \<Rightarrow> Inl err
      | Inr afi_mem \<Rightarrow>
          (case drop 2 data of
             [] \<Rightarrow> Inl OutOfBoundsRead
           | safi_octet # data2 \<Rightarrow>
               (case data2 of
                  [] \<Rightarrow> Inl OutOfBoundsRead
                | nh_len_octet # data3 \<Rightarrow>
                    (case drop (unat nh_len_octet) data3 of
                       [] \<Rightarrow> Inl OutOfBoundsRead
                     | reserved_octet # data5 \<Rightarrow>
                         (let attr_len' = attr_len - 2 - 1 - 1 - uint nh_len_octet - 1;
                              nl = \<lparr>afi = load16 (SWAP_BYTES afi_mem), safi = safi_octet,
                                    nh_len = nh_len_octet, next_hop = data3,
                                    reserved = reserved_octet, nlri_data = data5,
                                    nlri_len = word_of_int attr_len'\<rparr>
                          in if attr_len' < - (2 ^ 31) then Inl SignedOverflow
                             else if attr_len' < 0 then Inr update
                             else parseAfi ntop6 parser nl update)))))"

section \<open>Reference notions of the specification\<close>

text \<open>The value of four octets in network order: the first octet is the most significant.\<close>

definition big_endian32 :: "u_char \<Rightarrow> u_char \<Rightarrow> u_char \<Rightarrow> u_char \<Rightarrow> nat" where
  "big_endian32 b0 b1 b2 b3 = unat b0 * 2 ^ 24 + unat b1 * 2 ^ 16 + unat b2 * 2 ^ 8 + unat b3"

text \<open>
  \<open>grows e e'\<close>: every list of \<open>e\<close> is an initial segment of the list of \<open>e'\<close> under the
  same key, and \<open>e'\<close> has one more path identifier, prefix text and binary prefix.
  \<open>chain e es\<close>: each entry of \<open>es\<close> grows from the one before it, the first from \<open>e\<close>.
\<close>

definition grows :: "parse_bgp_lib_nlri \<Rightarrow> parse_bgp_lib_nlri \<Rightarrow> bool" where
  "grows e e' =
     ((\<forall>k. prefix (nlri_get e k) (nlri_get e' k)) \<and>
      length (nlri_get e' LIB_NLRI_PATH_ID) = Suc (length (nlri_get e LIB_NLRI_PATH_ID)) \<and>
      length (nlri_get e' LIB_NLRI_PREFIX) = Suc (length (nlri_get e LIB_NLRI_PREFIX)) \<and>
      length (nlri_get e' LIB_NLRI_PREFIX_BIN) = Suc (length (nlri_get e LIB_NLRI_PREFIX_BIN)))"

fun chain :: "parse_bgp_lib_nlri \<Rightarrow> parse_bgp_lib_nlri list \<Rightarrow> bool" where
  "chain e [] = True"
| "chain e (x # xs) = (grows e x \<and> chain x xs)"

section \<open>Basic facts\<close>

lemma dec_0: "dec 0 = ''0''"
  by (simp add: dec.simps)

lemma u_char_bound: "unat (b :: u_char) < 256"
  using unsigned_less [of b, where ?'a = nat] by simp

lemma load32_swapped:
  "unat (load32 (SWAP_BYTES [b0, b1, b2, b3])) = big_endian32 b0 b1 b2 b3"
proof -
  have "big_endian32 b0 b1 b2 b3 < 2 ^ 32"
    using u_char_bound [of b0] u_char_bound [of b1] u_char_bound [of b2] u_char_bound [of b3]
    by (simp add: big_endian32_def)
  moreover have "load_le (SWAP_BYTES [b0, b1, b2, b3]) = big_endian32 b0 b1 b2 b3"
    by (simp add: load_le_def SWAP_BYTES_def big_endian32_def)
  ultimately show ?thesis
    by (simp add: load32_def unat_of_nat)
qed

lemma read_path_id_enabled:
  "addpath \<Longrightarrow> 4 \<le> len - read_size \<Longrightarrow>
   read_path_id addpath len read_size (b0 # b1 # b2 # b3 # rest) =
     Inr (load32 (SWAP_BYTES [b0, b1, b2, b3]), rest, read_size + 4)"
  by (simp add: read_path_id_def memcpy_def bzero_def)

lemma read_path_id_disabled:
  "\<not> (addpath \<and> 4 \<le> len - read_size) \<Longrightarrow>
   read_path_id addpath len read_size data = Inr (0, data, read_size)"
  by (auto simp: read_path_id_def)

lemma header_cases:
  obtains (short) "length data < 4"
  | (long) a0 a1 s nh rest where "data = a0 # a1 # s # nh # rest"
proof (cases data)
  case Nil
  then show ?thesis using short by simp
next
  case c1: (Cons a0 d1)
  show ?thesis
  proof (cases d1)
    case Nil
    with c1 show ?thesis using short by simp
  next
    case c2: (Cons a1 d2)
    show ?thesis
    proof (cases d2)
      case Nil
      with c1 c2 show ?thesis using short by simp
    next
      case c3: (Cons s d3)
      show ?thesis
      proof (cases d3)
        case Nil
        with c1 c2 c3 show ?thesis using short by simp
      next
        case (Cons nh rest)
        with c1 c2 c3 show ?thesis using long by simp
      qed
    qed
  qed
qed

lemma parseReachNlriAttr_short:
  assumes "length data < 4"
  shows "\<exists>err. parseReachNlriAttr ntop6 parser attr_len data update = Inl err"
proof -
  have "length (drop 2 data) < 2"
    using assms by simp
  then have "drop 2 data = [] \<or> (\<exists>x. drop 2 data = [x])"
    by (cases "drop 2 data") auto
  then show ?thesis
    by (auto simp: parseReachNlriAttr_def memcpy_def Let_def)
qed

lemma parseReachNlriAttr_long:
  "parseReachNlriAttr ntop6 parser attr_len (a0 # a1 # s # nh # rest) update =
     (case drop (unat nh) rest of
        [] \<Rightarrow> Inl OutOfBoundsRead
      | r # data5 \<Rightarrow>
          if attr_len - 2 - 1 - 1 - uint nh - 1 < - (2 ^ 31) then Inl SignedOverflow
          else if attr_len - 2 - 1 - 1 - uint nh - 1 < 0 then Inr update
          else parseAfi ntop6 parser
                 \<lparr>afi = load16 (SWAP_BYTES [a0, a1]), safi = s, nh_len = nh, next_hop = rest,
                  reserved = r, nlri_data = data5,
                  nlri_len = word_of_int (attr_len - 2 - 1 - 1 - uint nh - 1)\<rparr> update)"
  by (simp add: parseReachNlriAttr_def memcpy_def bzero_def Let_def split: list.splits)

section \<open>The attribute header: a declared length shorter than the header\<close>

text \<open>
  Claim C2. The header takes 2 octets of AFI, 1 of SAFI, 1 of next-hop length, the next
  hop and 1 reserved octet. When the declared length \<open>attr_len\<close> minus these octets is
  negative (which any \<open>attr_len\<close> below 4 forces), the decode never returns a changed
  update structure: no NLRI entry is appended and no next-hop value is written. When
  the buffer holds the header octets (and \<open>attr_len\<close> is not so negative that the
  \<^verbatim>\<open>int\<close> overflows) it returns, with the update structure as it was.
\<close>

theorem C2_negative_remaining_length:
  assumes "attr_len < 4 \<or> (3 < length data \<and> attr_len - (2 + 1 + 1 + uint (data ! 3) + 1) < 0)"
  shows "(\<forall>update'. parseReachNlriAttr ntop6 parser attr_len data update = Inr update'
            \<longrightarrow> update' = update) \<and>
         (3 < length data \<and> 2 + 1 + 1 + unat (data ! 3) + 1 \<le> length data \<and>
          - (2 ^ 31) \<le> attr_len - (2 + 1 + 1 + uint (data ! 3) + 1)
            \<longrightarrow> parseReachNlriAttr ntop6 parser attr_len data update = Inr update)"
proof (cases data rule: header_cases)
  case short
  then show ?thesis
    using parseReachNlriAttr_short [of data ntop6 parser attr_len update] by auto
next
  case (long a0 a1 s nh rest)
  have "0 \<le> uint nh" by simp
  moreover have "attr_len < 4 \<or> attr_len - (2 + 1 + 1 + uint nh + 1) < 0"
    using assms long by auto
  ultimately have neg: "attr_len - 2 - 1 - 1 - uint nh - 1 < 0"
    by linarith
  have first: "update' = update"
    if "parseReachNlriAttr ntop6 parser attr_len data update = Inr update'" for update'
    using that neg unfolding long parseReachNlriAttr_long
    by (auto split: list.splits if_splits)
  have second: "parseReachNlriAttr ntop6 parser attr_len data update = Inr update"
    if "2 + 1 + 1 + unat (data ! 3) + 1 \<le> length data"
       "- (2 ^ 31) \<le> attr_len - (2 + 1 + 1 + uint (data ! 3) + 1)"
  proof -
    from that(1) long have "unat nh < length rest" by simp
    then obtain r rest' where "drop (unat nh) rest = r # rest'"
      by (metis Cons_nth_drop_Suc)
    with long that(2) neg show ?thesis
      unfolding long parseReachNlriAttr_long by simp
  qed
  from first second show ?thesis by blast
qed

theorem C2_negative_remaining_length_witness:
  "parseReachNlriAttr (\<lambda>_. []) (\<lambda>_ _. False) 3 [0, 1, 1, 4, 10, 0, 0, 1, 0, 24, 192, 168, 1]
     \<lparr>attrs = Map.empty, nlri_list = []\<rparr> = Inr \<lparr>attrs = Map.empty, nlri_list = []\<rparr>"
  using C2_negative_remaining_length
          [of 3 "[0, 1, 1, 4, 10, 0, 0, 1, 0, 24, 192, 168, 1]" "\<lambda>_. []" "\<lambda>_ _. False"
              "\<lparr>attrs = Map.empty, nlri_list = []\<rparr>"]
  by simp

section \<open>The path identifier of an iteration\<close>

text \<open>
  Claim C5. In an iteration of the prefix loop of either decoder (so \<open>read_size < len\<close>):
  when the add-path capability holds for the AFI and SAFI of the entry and at least four
  octets of the span remain, the first four octets are the path identifier, read in
  network order, and the rest of the iteration (prefix length, labels, address) works on
  the octets after them; otherwise the path identifier is 0 and the rest of the
  iteration starts at the first octet.
\<close>

theorem C5_path_identifier:
  assumes "read_size < len"
  shows "if parser (nlri_afi e) (nlri_safi e) \<and> 4 \<le> len - read_size
         then \<forall>b0 b1 b2 b3 rest. data = b0 # b1 # b2 # b3 # rest \<longrightarrow>
                unicast_iter ntop6 parser isIPv4 len data read_size e =
                  unicast_prefix ntop6 isIPv4 rest (read_size + 4)
                    (nlri_push_back e LIB_NLRI_PATH_ID (dec (big_endian32 b0 b1 b2 b3))) \<and>
                labeled_iter ntop6 parser isIPv4 len data read_size e =
                  map_sum id Some
                    (labeled_prefix ntop6 isIPv4 rest (read_size + 4)
                       (nlri_push_back e LIB_NLRI_PATH_ID (dec (big_endian32 b0 b1 b2 b3))))
         else unicast_iter ntop6 parser isIPv4 len data read_size e =
                unicast_prefix ntop6 isIPv4 data read_size
                  (nlri_push_back e LIB_NLRI_PATH_ID ''0'') \<and>
              labeled_iter ntop6 parser isIPv4 len data read_size e =
                map_sum id Some
                  (labeled_prefix ntop6 isIPv4 data read_size
                     (nlri_push_back e LIB_NLRI_PATH_ID ''0''))"
proof (cases "parser (nlri_afi e) (nlri_safi e) \<and> 4 \<le> len - read_size")
  case True
  have nz: "parsed_bytes \<noteq> int len"
    using assms by (simp add: parsed_bytes_def)
  show ?thesis
    using True nz
    by (auto simp: unicast_iter_def labeled_iter_def read_path_id_enabled load32_swapped Let_def
             split: sum.splits)
next
  case False
  have nz: "parsed_bytes \<noteq> int len"
    using assms by (simp add: parsed_bytes_def)
  have "read_path_id (parser (nlri_afi e) (nlri_safi e)) len read_size data = Inr (0, data, read_size)"
    using False by (intro read_path_id_disabled) simp
  then show ?thesis
    using False nz
    by (auto simp: unicast_iter_def labeled_iter_def dec_0 Let_def split: sum.splits)
qed

theorem C5_path_identifier_witness:
  "unicast_iter (\<lambda>_. []) (\<lambda>_ _. True) True 8 [0, 0, 1, 2, 8, 10, 8, 20] 0
     \<lparr>nlri_afi = 1, nlri_safi = 1, nlri_type = NLRI_TYPE_NONE, nlri = Map.empty\<rparr> =
   unicast_prefix (\<lambda>_. []) True [8, 10, 8, 20] 4
     (nlri_push_back \<lparr>nlri_afi = 1, nlri_safi = 1, nlri_type = NLRI_TYPE_NONE, nlri = Map.empty\<rparr>
        LIB_NLRI_PATH_ID ''258'') \<and>
   labeled_iter (\<lambda>_. []) (\<lambda>_ _. False) True 8 [24, 0, 1, 1, 8, 10, 8, 20] 0
     \<lparr>nlri_afi = 1, nlri_safi = 4, nlri_type = NLRI_TYPE_NONE, nlri = Map.empty\<rparr> =
   map_sum id Some (labeled_prefix (\<lambda>_. []) True [24, 0, 1, 1, 8, 10, 8, 20] 0
     (nlri_push_back \<lparr>nlri_afi = 1, nlri_safi = 4, nlri_type = NLRI_TYPE_NONE, nlri = Map.empty\<rparr>
        LIB_NLRI_PATH_ID ''0''))"
proof -
  have d: "dec (big_endian32 0 0 1 2) = ''258''"
    by (simp add: big_endian32_def dec.simps)
  have a: "(0::nat) < 8" by simp
  show ?thesis
    using C5_path_identifier [OF a, of "\<lambda>_ _. True"
            "\<lparr>nlri_afi = 1, nlri_safi = 1, nlri_type = NLRI_TYPE_NONE, nlri = Map.empty\<rparr>"
            "[0, 0, 1, 2, 8, 10, 8, 20]" "\<lambda>_. []" True]
          C5_path_identifier [OF a, of "\<lambda>_ _. False"
            "\<lparr>nlri_afi = 1, nlri_safi = 4, nlri_type = NLRI_TYPE_NONE, nlri = Map.empty\<rparr>"
            "[24, 0, 1, 1, 8, 10, 8, 20]" "\<lambda>_. []" True]
    by (simp add: d)
qed

section \<open>Address octets of a unicast prefix\<close>

lemma addr_bytes_of_unat: "unat (addr_bytes_of p) = (unat p + 7) div 8"
proof -
  have b: "unat p < 256" by (rule u_char_bound)
  have m: "(p mod 8 \<noteq> 0) = (unat p mod 8 \<noteq> 0)"
    using unat_0_iff [of "p mod 8"] by (simp add: unat_mod)
  have d: "unat (p div 8) = unat p div 8"
    by (simp add: unat_div)
  have "unat (p div 8) + unat (1 :: u_char) < 2 ^ LENGTH(8)"
    using b by (simp add: d)
  then have s: "unat (p div 8 + 1) = unat p div 8 + 1"
    using unat_add_lem [of "p div 8" 1] by (simp add: d)
  have e1: "(n + 7) div 8 = n div 8" if "n mod 8 = 0" for n :: nat
  proof -
    from that obtain k where "n = 8 * k" by (auto simp: mod_eq_0_iff_dvd)
    then show ?thesis by simp
  qed
  have e2: "(n + 7) div 8 = n div 8 + 1" if "n mod 8 \<noteq> 0" for n :: nat
  proof -
    have "n = 8 * (n div 8) + n mod 8" "n mod 8 < 8"
         "n + 7 = 8 * ((n + 7) div 8) + (n + 7) mod 8" "(n + 7) mod 8 < 8"
      by simp_all
    with that show ?thesis by linarith
  qed
  show ?thesis
  proof (cases "unat p mod 8 = 0")
    case True
    with m d e1 [of "unat p"] show ?thesis by (simp add: addr_bytes_of_def)
  next
    case False
    with m s e2 [of "unat p"] show ?thesis by (simp add: addr_bytes_of_def)
  qed
qed

lemma memcpy_ok:
  "n \<le> length dst \<Longrightarrow> n \<le> length src \<Longrightarrow> memcpy dst src n = Inr (take n src @ drop n dst)"
  by (simp add: memcpy_def)

lemma memcpy_Inr:
  "memcpy dst src n = Inr m \<Longrightarrow> n \<le> length dst \<and> n \<le> length src \<and> m = take n src @ drop n dst"
  by (auto simp: memcpy_def split: if_splits)

lemma nlri_get_push_back:
  "nlri_get (nlri_push_back e k v) k' = (if k' = k then nlri_get e k @ [v] else nlri_get e k')"
  by (simp add: nlri_get_def nlri_push_back_def)

text \<open>
  Claim C6. For a unicast prefix whose decode returns, the decoder takes
  \<open>(prefix_len + 7) div 8\<close> address octets (the least number of octets holding
  \<open>prefix_len\<close> bits) and the text and binary forms are made from a 16-octet buffer that
  holds these octets followed by zeros. The decode returns for every prefix length
  up to 128 bits whose address octets are in the buffer; a longer prefix would copy
  more than 16 octets into \<^verbatim>\<open>ip_raw\<close>. A prefix length of 0 takes no address octet
  and gives the IPv4 text 0.0.0.0; a prefix length of 32 takes exactly 4 octets.
\<close>

theorem C6_unicast_address_bytes:
  "(\<forall>data' read_size' e'.
      unicast_prefix ntop6 isIPv4 (prefix_len # data) read_size e = Inr (data', read_size', e')
      \<longrightarrow> (let n = (unat prefix_len + 7) div 8;
                   ip_raw = take n data @ replicate (16 - n) 0
               in n \<le> 16 \<and> n \<le> length data \<and> data' = drop n data \<and> read_size' = read_size + n \<and>
                  length ip_raw = 16 \<and>
                  nlri_get e' LIB_NLRI_PREFIX =
                    nlri_get e LIB_NLRI_PREFIX @ [inet_ntop ntop6 (af_of isIPv4) ip_raw] \<and>
                  nlri_get e' LIB_NLRI_PREFIX_BIN =
                    nlri_get e LIB_NLRI_PREFIX_BIN @ [string_of_bytes (take 4 ip_raw)])) \<and>
   (unat prefix_len \<le> 128 \<and> (unat prefix_len + 7) div 8 \<le> length data
      \<longrightarrow> (\<exists>r. unicast_prefix ntop6 isIPv4 (prefix_len # data) read_size e = Inr r)) \<and>
   (\<exists>e'. unicast_prefix ntop6 True (0 # data) read_size e = Inr (data, read_size, e') \<and>
         nlri_get e' LIB_NLRI_PREFIX = nlri_get e LIB_NLRI_PREFIX @ [''0.0.0.0'']) \<and>
   (4 \<le> length data
      \<longrightarrow> (\<exists>e'. unicast_prefix ntop6 isIPv4 (32 # data) read_size e =
                  Inr (drop 4 data, read_size + 4, e')))"
proof (intro conjI allI impI)
  fix data' read_size' e'
  assume r: "unicast_prefix ntop6 isIPv4 (prefix_len # data) read_size e = Inr (data', read_size', e')"
  define n where "n = (unat prefix_len + 7) div 8"
  from r obtain ip_raw where
    m: "memcpy (bzero 16) data n = Inr ip_raw" and
    res: "data' = drop n data" "read_size' = read_size + n"
      "e' = nlri_push_back (nlri_push_back
              (nlri_push_back e LIB_NLRI_PREFIX_LENGTH (dec (unat prefix_len)))
              LIB_NLRI_PREFIX (inet_ntop ntop6 (af_of isIPv4) ip_raw))
              LIB_NLRI_PREFIX_BIN (string_of_bytes (take 4 ip_raw))"
    by (auto simp: unicast_prefix_def Let_def addr_bytes_of_unat n_def split: sum.splits)
  from memcpy_Inr [OF m] have
    k: "n \<le> 16" "n \<le> length data" "ip_raw = take n data @ replicate (16 - n) 0"
    by (simp_all add: bzero_def)
  show "let n = (unat prefix_len + 7) div 8; ip_raw = take n data @ replicate (16 - n) 0
        in n \<le> 16 \<and> n \<le> length data \<and> data' = drop n data \<and> read_size' = read_size + n \<and>
           length ip_raw = 16 \<and>
           nlri_get e' LIB_NLRI_PREFIX =
             nlri_get e LIB_NLRI_PREFIX @ [inet_ntop ntop6 (af_of isIPv4) ip_raw] \<and>
           nlri_get e' LIB_NLRI_PREFIX_BIN =
             nlri_get e LIB_NLRI_PREFIX_BIN @ [string_of_bytes (take 4 ip_raw)]"
    using k res by (simp add: Let_def n_def [symmetric] nlri_get_push_back)
next
  assume a: "unat prefix_len \<le> 128 \<and> (unat prefix_len + 7) div 8 \<le> length data"
  then have "(unat prefix_len + 7) div 8 \<le> 16" by linarith
  with a show "\<exists>r. unicast_prefix ntop6 isIPv4 (prefix_len # data) read_size e = Inr r"
    by (simp add: unicast_prefix_def Let_def addr_bytes_of_unat memcpy_ok bzero_def)
next
  show "\<exists>e'. unicast_prefix ntop6 True (0 # data) read_size e = Inr (data, read_size, e') \<and>
         nlri_get e' LIB_NLRI_PREFIX = nlri_get e LIB_NLRI_PREFIX @ [''0.0.0.0'']"
    by (simp add: unicast_prefix_def Let_def addr_bytes_of_def memcpy_def bzero_def
          nlri_get_push_back inet_ntop_def af_of_def inet_ntop4_def dec_0)
next
  assume "4 \<le> length data"
  then show "\<exists>e'. unicast_prefix ntop6 isIPv4 (32 # data) read_size e =
                  Inr (drop 4 data, read_size + 4, e')"
    by (simp add: unicast_prefix_def Let_def addr_bytes_of_def memcpy_def bzero_def)
qed


theorem C6_unicast_address_bytes_witness:
  "\<exists>e'. unicast_prefix (\<lambda>_. []) True [24, 192, 168, 1] 0
           \<lparr>nlri_afi = 1, nlri_safi = 1, nlri_type = NLRI_TYPE_NONE, nlri = Map.empty\<rparr> =
           Inr ([], 3, e') \<and>
         nlri_get e' LIB_NLRI_PREFIX = [''192.168.1.0''] \<and>
         nlri_get e' LIB_NLRI_PREFIX_BIN = [string_of_bytes [192, 168, 1, 0]]"
proof -
  let ?e = "\<lparr>nlri_afi = 1, nlri_safi = 1, nlri_type = NLRI_TYPE_NONE, nlri = Map.empty\<rparr>"
  note c = C6_unicast_address_bytes [of "\<lambda>_. []" True 24 "[192, 168, 1]" 0 ?e]
  from c obtain r where r: "unicast_prefix (\<lambda>_. []) True [24, 192, 168, 1] 0 ?e = Inr r"
    by auto
  obtain d rs e' where t: "r = (d, rs, e')"
    by (cases r)
  from c r t show ?thesis
    by (simp add: Let_def nlri_get_def inet_ntop_def af_of_def inet_ntop4_def dec.simps)
qed

section \<open>The next hop\<close>

lemma attrs_get_next_hop:
  "attr_value (attrs_get (attrs_next_hop u ip_char) LIB_ATTR_NEXT_HOP) =
     attr_value (attrs_get u LIB_ATTR_NEXT_HOP) @ [ip_char]"
  by (simp add: attrs_next_hop_def attrs_get_def Let_def)

lemma next_hop_ip_raw_Inr:
  assumes "next_hop_ip_raw nl = Inr ip_raw"
  shows "min (unat (nh_len nl)) 16 \<le> length (next_hop nl) \<and>
         ip_raw = take (min (unat (nh_len nl)) 16) (next_hop nl) @
                  replicate (16 - min (unat (nh_len nl)) 16) 0"
proof (cases "nh_len nl > 16")
  case True
  then have "16 < unat (nh_len nl)"
    by (simp add: word_less_nat_alt)
  with assms True show ?thesis
    by (auto simp: next_hop_ip_raw_def bzero_def min_def dest!: memcpy_Inr)
next
  case False
  then have "unat (nh_len nl) \<le> 16"
    by (simp add: word_less_nat_alt)
  with assms False show ?thesis
    by (auto simp: next_hop_ip_raw_def bzero_def min_def dest!: memcpy_Inr)
qed

text \<open>
  Claim C7. For the unicast and the labeled unicast SAFI, with \<open>m\<close> the smaller of the
  next-hop length and 16: the buffer given to the text conversion has 16 octets, its
  first \<open>m\<close> octets are the first \<open>m\<close> octets of the next-hop field and the others are
  zero, and the string appended under the next-hop key of a returning decode is the
  text of this buffer.
\<close>

theorem C7_next_hop_bytes:
  assumes "unat (safi nl) = BGP_SAFI_UNICAST \<or> unat (safi nl) = BGP_SAFI_NLRI_LABEL"
  shows "(let m = min (unat (nh_len nl)) 16;
              ip_raw = take m (next_hop nl) @ replicate (16 - m) 0
          in (m \<le> length (next_hop nl) \<longrightarrow>
                next_hop_ip_raw nl = Inr ip_raw \<and> length ip_raw = 16 \<and>
                take m ip_raw = take m (next_hop nl) \<and> drop m ip_raw = replicate (16 - m) 0) \<and>
             (\<forall>update'. parseAfi_IPv4IPv6 ntop6 parser isIPv4 nl update = Inr update' \<longrightarrow>
                m \<le> length (next_hop nl) \<and>
                attr_value (attrs_get update' LIB_ATTR_NEXT_HOP) =
                  attr_value (attrs_get update LIB_ATTR_NEXT_HOP) @
                  [inet_ntop ntop6 (af_of isIPv4) ip_raw]))"
proof -
  define m where "m = min (unat (nh_len nl)) 16"
  define ip_raw where "ip_raw = take m (next_hop nl) @ replicate (16 - m) 0"
  have len: "m \<le> length (next_hop nl) \<Longrightarrow> length ip_raw = 16"
    by (simp add: ip_raw_def m_def)
  have copy: "next_hop_ip_raw nl = Inr ip_raw" if "m \<le> length (next_hop nl)"
  proof (cases "nh_len nl > 16")
    case True
    then have "16 < unat (nh_len nl)"
      by (simp add: word_less_nat_alt)
    with that True show ?thesis
      by (simp add: next_hop_ip_raw_def memcpy_def bzero_def m_def ip_raw_def)
  next
    case False
    then have "unat (nh_len nl) \<le> 16"
      by (simp add: word_less_nat_alt)
    with that False show ?thesis
      by (simp add: next_hop_ip_raw_def memcpy_def bzero_def m_def ip_raw_def min_def)
  qed
  have out: "m \<le> length (next_hop nl) \<and>
             attr_value (attrs_get update' LIB_ATTR_NEXT_HOP) =
               attr_value (attrs_get update LIB_ATTR_NEXT_HOP) @
               [inet_ntop ntop6 (af_of isIPv4) ip_raw]"
    if "parseAfi_IPv4IPv6 ntop6 parser isIPv4 nl update = Inr update'" for update'
  proof -
    from that assms obtain raw where raw: "next_hop_ip_raw nl = Inr raw"
      by (auto simp: parseAfi_IPv4IPv6_def split: sum.splits if_splits)
    from next_hop_ip_raw_Inr [OF raw] have r: "m \<le> length (next_hop nl)" "raw = ip_raw"
      by (simp_all add: m_def ip_raw_def)
    from that assms raw have
      "attrs update' = attrs (attrs_next_hop update (inet_ntop ntop6 (af_of isIPv4) raw))"
      by (auto simp: parseAfi_IPv4IPv6_def Let_def split: sum.splits if_splits)
    then have "attrs_get update' LIB_ATTR_NEXT_HOP =
               attrs_get (attrs_next_hop update (inet_ntop ntop6 (af_of isIPv4) raw)) LIB_ATTR_NEXT_HOP"
      by (simp add: attrs_get_def)
    with r show ?thesis
      by (simp add: attrs_get_next_hop)
  qed
  have shape: "take m ip_raw = take m (next_hop nl) \<and> drop m ip_raw = replicate (16 - m) 0"
    if "m \<le> length (next_hop nl)"
    using that by (simp add: ip_raw_def)
  show ?thesis
    unfolding Let_def m_def [symmetric] ip_raw_def [symmetric]
    using copy out len shape by blast
qed

theorem C7_next_hop_bytes_witness:
  "\<exists>update'.
     parseAfi_IPv4IPv6 (\<lambda>_. []) (\<lambda>_ _. False) True
       \<lparr>afi = 1, safi = 1, nh_len = 4, next_hop = [10, 0, 0, 1, 0], reserved = 0,
        nlri_data = [], nlri_len = 0\<rparr>
       \<lparr>attrs = Map.empty, nlri_list = []\<rparr> = Inr update' \<and>
     attr_value (attrs_get update' LIB_ATTR_NEXT_HOP) = [''10.0.0.1'']"
proof -
  let ?nl = "\<lparr>afi = 1, safi = 1, nh_len = 4, next_hop = [10, 0, 0, 1, 0], reserved = 0,
              nlri_data = [], nlri_len = 0\<rparr>"
  let ?u = "\<lparr>attrs = Map.empty, nlri_list = []\<rparr>"
  have s: "unat (safi ?nl) = BGP_SAFI_UNICAST \<or> unat (safi ?nl) = BGP_SAFI_NLRI_LABEL"
    by (simp add: BGP_SAFI_UNICAST_def)
  have "\<not> isl (parseAfi_IPv4IPv6 (\<lambda>_. []) (\<lambda>_ _. False) True ?nl ?u)"
    by (simp add: parseAfi_IPv4IPv6_def BGP_SAFI_UNICAST_def next_hop_ip_raw_def memcpy_def
          bzero_def parseNlriData_IPv4IPv6_def Let_def)
  then obtain update' where r: "parseAfi_IPv4IPv6 (\<lambda>_. []) (\<lambda>_ _. False) True ?nl ?u = Inr update'"
    by (cases "parseAfi_IPv4IPv6 (\<lambda>_. []) (\<lambda>_ _. False) True ?nl ?u") simp_all
  from C7_next_hop_bytes [OF s, of "\<lambda>_. []" "\<lambda>_ _. False" True ?u] r
  have "attr_value (attrs_get update' LIB_ATTR_NEXT_HOP) = [''10.0.0.1'']"
    by (simp add: Let_def attrs_get_def inet_ntop_def af_of_def inet_ntop4_def dec.simps)
  with r show ?thesis by blast
qed

section \<open>The label loop, round by round\<close>

lemma load_le4: "load_le [c, b2, b1, b0] = unat c + 256 * unat b2 + 65536 * unat b1 + 16777216 * unat b0"
  by (simp add: load_le_def)

lemma unat_label_data:
  "unat (label_data [c, b2, b1, b0]) = unat c + 256 * unat b2 + 65536 * unat b1 + 16777216 * unat b0"
proof -
  let ?n = "unat c + 256 * unat b2 + 65536 * unat b1 + 16777216 * unat b0"
  have "?n < 2 ^ LENGTH(32)"
    using u_char_bound [of c] u_char_bound [of b2] u_char_bound [of b1] u_char_bound [of b0]
    by simp
  then have "unat (word_of_nat ?n :: uint32_t) = ?n"
    by (simp only: unat_of_nat mod_less)
  then show ?thesis
    by (simp only: label_data_def load32_def load_le4)
qed

lemma unat_label_decode_value:
  "unat (label_decode_value [c, b2, b1, b0]) = (unat b0 * 65536 + unat b1 * 256 + unat b2) div 16"
proof -
  let ?m = "unat b0 * 65536 + unat b1 * 256 + unat b2"
  have "unat (label_decode_value [c, b2, b1, b0]) = drop_bit 12 (unat (label_data [c, b2, b1, b0]))"
    unfolding label_decode_value_def by (rule unat_drop_bit_eq)
  also have "\<dots> = unat (label_data [c, b2, b1, b0]) div 2 ^ 12"
    by (rule drop_bit_eq_div)
  also have "\<dots> = (unat c + 256 * ?m) div 4096"
    by (simp add: unat_label_data algebra_simps)
  also have "\<dots> = ((unat c + 256 * ?m) div 256) div 16"
    by (simp add: div_mult2_eq)
  also have "(unat c + 256 * ?m) div 256 = ?m"
    using u_char_bound [of c] by simp
  finally show ?thesis .
qed

lemma label_decode_bos_odd:
  "(label_decode_bos [c, b2, b1, b0] = 1) = odd (unat b2)"
proof -
  let ?m = "unat b0 * 65536 + unat b1 * 256 + unat b2"
  have "(label_decode_bos [c, b2, b1, b0] = 1) = bit (label_data [c, b2, b1, b0]) 8"
    by (simp add: label_decode_bos_def bit_iff_and_drop_bit_eq_1)
  also have "\<dots> = bit (unat (label_data [c, b2, b1, b0])) 8"
    by (simp add: bit_unsigned_iff)
  also have "\<dots> = odd ((unat c + 256 * ?m) div 256)"
    by (simp only: bit_iff_odd unat_label_data) (simp add: algebra_simps)
  also have "(unat c + 256 * ?m) div 256 = ?m"
    using u_char_bound [of c] by simp
  also have "odd ?m = odd (unat b2)"
    by simp
  finally show ?thesis .
qed

lemma label_data_sentinel:
  "(label_data [c, b2, b1, b0] = 0x80000000) = (b0 = 0x80 \<and> b1 = 0 \<and> b2 = 0 \<and> c = 0)"
proof -
  have "(label_data [c, b2, b1, b0] = 0x80000000) =
        (unat c + 256 * unat b2 + 65536 * unat b1 + 16777216 * unat b0 = 2147483648)"
    by (simp add: word_unat_eq_iff unat_label_data)
  also have "\<dots> = (unat b0 = 128 \<and> unat b1 = 0 \<and> unat b2 = 0 \<and> unat c = 0)"
  proof
    let ?s = "unat c + 256 * unat b2 + 65536 * unat b1"
    assume eq: "unat c + 256 * unat b2 + 65536 * unat b1 + 16777216 * unat b0 = 2147483648"
    have small: "?s < 16777216"
      using u_char_bound [of c] u_char_bound [of b2] u_char_bound [of b1] by linarith
    then have "(?s + 16777216 * unat b0) mod 16777216 = ?s"
      by simp
    with eq have "?s = 0"
      by simp
    with eq show "unat b0 = 128 \<and> unat b1 = 0 \<and> unat b2 = 0 \<and> unat c = 0"
      by simp
  next
    assume "unat b0 = 128 \<and> unat b1 = 0 \<and> unat b2 = 0 \<and> unat c = 0"
    then show "unat c + 256 * unat b2 + 65536 * unat b1 + 16777216 * unat b0 = 2147483648"
      by simp
  qed
  also have "\<dots> = (b0 = 0x80 \<and> b1 = 0 \<and> b2 = 0 \<and> c = 0)"
    by (simp add: word_unat_eq_iff)
  finally show ?thesis .
qed


text \<open>
  One round of the label loop in terms of the three octets on the wire and of the octet
  \<open>c\<close> that the fourth byte of the union holds when the round starts: the label value is
  the upper 20 bits of the three octets, the bottom-of-stack flag is the lowest bit of
  the third octet, and the comparison with 0x80000000 succeeds exactly when the octets
  are 0x80, 0, 0 and \<open>c\<close> is 0. The union is left holding the first octet of this label
  in its fourth byte.
\<close>

lemma label_loop_round:
  assumes "3 \<le> addr_bytes"
  shows "label_loop (b0 # b1 # b2 # rest) addr_bytes prefix_len [l0, l1, l2, c] read_size e =
     (let e2 = nlri_push_back
                 (nlri_push_back e LIB_NLRI_PREFIX_LENGTH (dec (unat (prefix_len - 24))))
                 LIB_NLRI_LABELS (dec ((unat b0 * 65536 + unat b1 * 256 + unat b2) div 16))
      in if odd (unat b2) \<or> (b0 = 0x80 \<and> b1 = 0 \<and> b2 = 0 \<and> c = 0)
         then Inr (rest, addr_bytes - 3, prefix_len - 24, [c, b2, b1, b0], read_size + 3, e2)
         else label_loop rest (addr_bytes - 3) (prefix_len - 24) [c, b2, b1, b0] (read_size + 3) e2)"
  using assms
  by (subst label_loop.simps)
     (simp add: memcpy_def SWAP_BYTES_def Let_def unat_label_decode_value label_decode_bos_odd
        label_data_sentinel)

text \<open>
  A label loop that returns has consumed some number \<open>k\<close> of labels: three octets and
  24 bits of the 8-bit prefix length for each, without wrap-around as long as
  \<open>24 * k\<close> does not exceed the combined length.
\<close>

lemma label_loop_counts:
  "label_loop data addr_bytes prefix_len label read_size e =
     Inr (data', addr_bytes', prefix_len', label', read_size', e')
   \<Longrightarrow> \<exists>k. read_size' = read_size + 3 * k \<and> addr_bytes' = addr_bytes - 3 * int k \<and>
           prefix_len' = prefix_len - 24 * of_nat k \<and>
           length (nlri_get e' LIB_NLRI_LABELS) = length (nlri_get e LIB_NLRI_LABELS) + k \<and>
           (if k = 0 then e' = e
            else last (nlri_get e' LIB_NLRI_PREFIX_LENGTH) = dec (unat prefix_len'))"
proof (induction data addr_bytes prefix_len label read_size e rule: label_loop.induct)
  case (1 data addr_bytes prefix_len label read_size e)
  show ?case
  proof (cases "3 \<le> addr_bytes")
    case False
    with "1.prems" show ?thesis
      by (intro exI [of _ 0]) (simp add: label_loop.simps [of data addr_bytes])
  next
    case True
    from True "1.prems" obtain label1 where m: "memcpy label data 3 = Inr label1"
      by (auto simp: label_loop.simps [of data addr_bytes] split: sum.splits)
    let ?pl = "prefix_len - 24"
    let ?l2 = "SWAP_BYTES label1"
    let ?e1 = "nlri_push_back e LIB_NLRI_PREFIX_LENGTH (dec (unat ?pl))"
    let ?e2 = "nlri_push_back ?e1 LIB_NLRI_LABELS (dec (unat (label_decode_value ?l2)))"
    have e2: "last (nlri_get ?e2 LIB_NLRI_PREFIX_LENGTH) = dec (unat ?pl)"
      "length (nlri_get ?e2 LIB_NLRI_LABELS) = length (nlri_get e LIB_NLRI_LABELS) + 1"
      by (simp_all add: nlri_get_push_back)
    show ?thesis
    proof (cases "label_decode_bos ?l2 = 1 \<or> label_data ?l2 = 0x80000000")
      case stop: True
      with True m "1.prems" have
        "read_size' = read_size + 3 \<and> addr_bytes' = addr_bytes - 3 \<and> prefix_len' = ?pl \<and> e' = ?e2"
        by (auto simp: label_loop.simps [of data addr_bytes] Let_def)
      with e2 show ?thesis
        by (intro exI [of _ 1]) simp
    next
      case go: False
      with True m "1.prems" have
        "label_loop (drop 3 data) (addr_bytes - 3) ?pl ?l2 (read_size + 3) ?e2 =
           Inr (data', addr_bytes', prefix_len', label', read_size', e')"
        by (simp add: label_loop.simps [of data addr_bytes] Let_def)
      from "1.IH" [OF True m refl refl refl refl go this] obtain k where
        k: "read_size' = read_size + 3 + 3 * k" "addr_bytes' = addr_bytes - 3 - 3 * int k"
           "prefix_len' = ?pl - 24 * of_nat k"
           "length (nlri_get e' LIB_NLRI_LABELS) = length (nlri_get ?e2 LIB_NLRI_LABELS) + k"
           "if k = 0 then e' = ?e2
            else last (nlri_get e' LIB_NLRI_PREFIX_LENGTH) = dec (unat prefix_len')"
        by auto
      have "last (nlri_get e' LIB_NLRI_PREFIX_LENGTH) = dec (unat prefix_len')"
        using k(3,5) e2(1) by (cases "k = 0") simp_all
      with k e2(2) show ?thesis
        by (intro exI [of _ "Suc k"]) (simp add: algebra_simps)
    qed
  qed
qed

lemma prefix_len_no_wrap:
  assumes "24 * k \<le> unat (prefix_len :: u_char)"
  shows "unat (prefix_len - 24 * of_nat k) = unat prefix_len - 24 * k"
proof -
  have "24 * k < 256"
    using assms u_char_bound [of prefix_len] by linarith
  moreover have "(24 * of_nat k :: u_char) = of_nat (24 * k)"
    by simp
  then have "unat (24 * of_nat k :: u_char) = (24 * k) mod 2 ^ LENGTH(8)"
    by (simp only: unat_of_nat)
  ultimately have u: "unat (24 * of_nat k :: u_char) = 24 * k"
    by simp
  with assms have "24 * of_nat k \<le> prefix_len"
    by (simp add: word_le_nat_alt)
  then show ?thesis
    by (simp add: unat_sub u)
qed

section \<open>Evaluation at concrete inputs\<close>

lemmas eval_defs =
  parseNlriData_IPv4IPv6_def parseNlriData_LabelIPv4IPv6_def unicast_loop.simps labeled_loop.simps
  unicast_iter_def labeled_iter_def unicast_prefix_def labeled_prefix_def label_loop.simps
  read_path_id_def memcpy_def bzero_def SWAP_BYTES_def load32_def load16_def load_le_def dec.simps
  inet_ntop_def inet_ntop4_def af_of_def addr_bytes_of_def nlri_push_back_def nlri_get_def
  string_of_bytes_def parsed_bytes_def label_data_def label_decode_bos_def label_decode_value_def
  BGP_AFI_IPV4_def BGP_AFI_IPV6_def BGP_SAFI_UNICAST_def BGP_SAFI_NLRI_LABEL_def BGP_AFI_BGPLS_def
  parseReachNlriAttr_def parseAfi_def parseAfi_IPv4IPv6_def next_hop_ip_raw_def attrs_next_hop_def
  attrs_get_def ATTR_TYPE_NEXT_HOP_def Let_def

text \<open>
  Claim C1. The octets 8, 10, 8, 20 are the unicast encoding of the two prefixes
  10.0.0.0/8 and 20.0.0.0/8. With add-path disabled the decoder appends two entries,
  but the second is not the second prefix: it holds two path identifiers, two prefix
  lengths and two addresses, those of the first prefix included. The working record
  declared at line 202 is copied into the list at line 261 and never cleared.
\<close>

theorem C1_entries_accumulate:
  "map_sum id (map (\<lambda>e. (nlri_get e LIB_NLRI_PATH_ID, nlri_get e LIB_NLRI_PREFIX_LENGTH,
                            nlri_get e LIB_NLRI_PREFIX)))
     (parseNlriData_IPv4IPv6 ntop6 (\<lambda>_ _. False) True (Some [8, 10, 8, 20]) 4 []) =
   Inr [([''0''], [''8''], [''10.0.0.0'']),
        ([''0'', ''0''], [''8'', ''8''], [''10.0.0.0'', ''20.0.0.0''])]"
  by (simp add: eval_defs)

text \<open>
  Claim C3. A labeled prefix of 72 bits with the labels 0x100000 (bottom of stack clear)
  and 0x800000 (the withdrawal label) before the address octets 10, 0, 1. The label
  union is cleared once per prefix, so in the second round its fourth octet still holds
  the first octet 0x10 of the first label; after the swap \<^verbatim>\<open>label.data\<close> is 0x80000010,
  the comparison with 0x80000000 fails and the loop reads the address octets as a third
  label. When the first octet of the first label is 0 the same withdrawal label ends the
  loop.
\<close>

theorem C3_sentinel_after_label:
  "map_sum id (map (\<lambda>e. (nlri_get e LIB_NLRI_LABELS, nlri_get e LIB_NLRI_PREFIX_LENGTH,
                            nlri_get e LIB_NLRI_PREFIX)))
     (parseNlriData_LabelIPv4IPv6 ntop6 (\<lambda>_ _. False) True
        (Some [72, 0x10, 0, 0, 0x80, 0, 0, 10, 0, 1]) 10 []) =
   Inr [([''65536'', ''524288'', ''40960''], [''48'', ''24'', ''0''], [''0.0.0.0''])] \<and>
   map_sum id (map (\<lambda>e. (nlri_get e LIB_NLRI_LABELS, nlri_get e LIB_NLRI_PREFIX_LENGTH,
                            nlri_get e LIB_NLRI_PREFIX)))
     (parseNlriData_LabelIPv4IPv6 ntop6 (\<lambda>_ _. False) True
        (Some [72, 0, 1, 0, 0x80, 0, 0, 10, 0, 1]) 10 []) =
   Inr [([''16'', ''524288''], [''48'', ''24''], [''10.0.1.0''])]"
  by (simp add: eval_defs)

text \<open>
  Claim C4. A labeled prefix of 17 bits has three octets, so the label loop runs once
  and subtracts 24 from the 8-bit prefix length: the entry's prefix length is
  249 = 17 - 24 + 256.
\<close>

theorem C4_prefix_length_wraps:
  "map_sum id (map (\<lambda>e. (nlri_get e LIB_NLRI_LABELS, nlri_get e LIB_NLRI_PREFIX_LENGTH,
                            nlri_get e LIB_NLRI_PREFIX)))
     (parseNlriData_LabelIPv4IPv6 ntop6 (\<lambda>_ _. False) True (Some [17, 0, 1, 1]) 4 []) =
   Inr [([''16''], [''249''], [''0.0.0.0''])]"
  by (simp add: eval_defs)

text \<open>
  Claim C8. Two MP_REACH attributes (IPv4 unicast, next hops 10.0.0.1 and 10.0.0.2, no
  NLRI) decoded into the same update structure: the value under the next-hop key is
  the list of both next hops, since lines 148 and 168 use \<^verbatim>\<open>push_back\<close>.
\<close>

theorem C8_next_hop_accumulates:
  "map_sum id (\<lambda>u. attr_value (attrs_get u LIB_ATTR_NEXT_HOP))
     (case parseReachNlriAttr ntop6 parser 9 [0, 1, 1, 4, 10, 0, 0, 1, 0]
             \<lparr>attrs = Map.empty, nlri_list = []\<rparr> of
        Inl err \<Rightarrow> Inl err
      | Inr update \<Rightarrow> parseReachNlriAttr ntop6 parser 9 [0, 1, 1, 4, 10, 0, 0, 2, 0] update) =
   Inr [''10.0.0.1'', ''10.0.0.2'']"
  by (simp add: eval_defs)

section \<open>Termination and bounds\<close>

lemma read_path_id_consumes:
  assumes "read_path_id addpath len read_size data = Inr (path_id, data', read_size')"
  shows "read_size \<le> read_size' \<and> length data = length data' + (read_size' - read_size)"
  using assms by (auto simp: read_path_id_def split: if_splits sum.splits dest!: memcpy_Inr)

lemma unicast_prefix_consumes:
  assumes "unicast_prefix ntop6 isIPv4 data read_size e = Inr (data', read_size', e')"
  shows "read_size \<le> read_size' \<and> length data = length data' + (read_size' + 1 - read_size)"
  using assms
  by (auto simp: unicast_prefix_def Let_def split: list.splits sum.splits dest!: memcpy_Inr)

lemma unicast_iter_consumes:
  assumes "unicast_iter ntop6 parser isIPv4 len data read_size e = Inr (data', read_size', e')"
  shows "read_size \<le> read_size' \<and> length data = length data' + (read_size' + 1 - read_size)"
proof -
  from assms obtain path_id data1 read_size1 where
    p: "read_path_id (parser (nlri_afi e) (nlri_safi e)) len read_size data =
          Inr (path_id, data1, read_size1)" and
    u: "unicast_prefix ntop6 isIPv4 data1 read_size1
          (nlri_push_back e LIB_NLRI_PATH_ID (dec (unat path_id))) = Inr (data', read_size', e')"
    by (auto simp: unicast_iter_def split: sum.splits)
  from read_path_id_consumes [OF p] unicast_prefix_consumes [OF u] show ?thesis
    by linarith
qed

lemma label_loop_consumes:
  "label_loop data addr_bytes prefix_len label read_size e =
     Inr (data', addr_bytes', prefix_len', label', read_size', e')
   \<Longrightarrow> read_size \<le> read_size' \<and> length data = length data' + (read_size' - read_size) \<and>
       (0 \<le> addr_bytes \<longrightarrow> 0 \<le> addr_bytes')"
proof (induction data addr_bytes prefix_len label read_size e rule: label_loop.induct)
  case (1 data addr_bytes prefix_len label read_size e)
  show ?case
  proof (cases "3 \<le> addr_bytes")
    case False
    with "1.prems" show ?thesis
      by (simp add: label_loop.simps [of data addr_bytes])
  next
    case True
    from True "1.prems" obtain label1 where m: "memcpy label data 3 = Inr label1"
      by (auto simp: label_loop.simps [of data addr_bytes] split: sum.splits)
    then have l: "3 \<le> length data"
      by (auto dest: memcpy_Inr)
    let ?pl = "prefix_len - 24"
    let ?l2 = "SWAP_BYTES label1"
    let ?e1 = "nlri_push_back e LIB_NLRI_PREFIX_LENGTH (dec (unat ?pl))"
    let ?e2 = "nlri_push_back ?e1 LIB_NLRI_LABELS (dec (unat (label_decode_value ?l2)))"
    show ?thesis
    proof (cases "label_decode_bos ?l2 = 1 \<or> label_data ?l2 = 0x80000000")
      case stop: True
      with True m "1.prems" l show ?thesis
        by (auto simp: label_loop.simps [of data addr_bytes] Let_def)
    next
      case go: False
      with True m "1.prems" have
        "label_loop (drop 3 data) (addr_bytes - 3) ?pl ?l2 (read_size + 3) ?e2 =
           Inr (data', addr_bytes', prefix_len', label', read_size', e')"
        by (simp add: label_loop.simps [of data addr_bytes] Let_def)
      from "1.IH" [OF True m refl refl refl refl go this] l True show ?thesis
        by auto
    qed
  qed
qed

lemma labeled_prefix_consumes:
  assumes "labeled_prefix ntop6 isIPv4 data read_size e = Inr (data', read_size', e')"
  shows "read_size \<le> read_size' \<and> length data = length data' + (read_size' + 1 - read_size)"
proof -
  from assms obtain prefix_len data1 where d: "data = prefix_len # data1"
    by (auto simp: labeled_prefix_def split: list.splits)
  define ab where "ab = (if uint prefix_len mod 8 \<noteq> 0 then uint prefix_len div 8 + 1
                         else uint prefix_len div 8)"
  have ab0: "0 \<le> ab"
    by (simp add: ab_def pos_imp_zdiv_nonneg_iff)
  from assms d obtain data2 ab2 pl2 l2 rs2 e2 ip_raw where
    ll: "label_loop data1 ab prefix_len (bzero 4) read_size e = Inr (data2, ab2, pl2, l2, rs2, e2)" and
    m: "memcpy (bzero 16) data2 (nat ab2) = Inr ip_raw" and
    r: "data' = drop (nat ab2) data2" "read_size' = rs2 + nat ab2"
    by (auto simp: labeled_prefix_def Let_def ab_def split: sum.splits)
  from label_loop_consumes [OF ll] memcpy_Inr [OF m] r d show ?thesis
    by auto
qed

lemma labeled_iter_consumes:
  assumes "labeled_iter ntop6 parser isIPv4 len data read_size e = Inr (Some (data', read_size', e'))"
  shows "read_size \<le> read_size' \<and> length data = length data' + (read_size' + 1 - read_size)"
proof -
  from assms obtain path_id data1 read_size1 where
    p: "read_path_id (parser (nlri_afi e) (nlri_safi e)) len read_size data =
          Inr (path_id, data1, read_size1)" and
    u: "labeled_prefix ntop6 isIPv4 data1 read_size1
          (nlri_push_back e LIB_NLRI_PATH_ID (dec (unat path_id))) = Inr (data', read_size', e')"
    by (auto simp: labeled_iter_def Let_def split: sum.splits if_splits)
  from read_path_id_consumes [OF p] labeled_prefix_consumes [OF u] show ?thesis
    by linarith
qed

lemma unicast_loop_bound:
  "unicast_loop ntop6 parser isIPv4 len data read_size e out = Inr out'
     \<Longrightarrow> length out' \<le> length out + (len - read_size)"
proof (induction ntop6 parser isIPv4 len data read_size e out rule: unicast_loop.induct)
  case (1 ntop6 parser isIPv4 len data read_size e out)
  show ?case
  proof (cases "read_size < len")
    case False
    with "1.prems" show ?thesis
      by (simp add: unicast_loop.simps [of _ _ _ len data read_size])
  next
    case True
    with "1.prems" obtain data1 rs1 e1 where
      it: "unicast_iter ntop6 parser isIPv4 len data read_size e = Inr (data1, rs1, e1)" and
      rec: "unicast_loop ntop6 parser isIPv4 len data1 (rs1 + 1) e1 (out @ [e1]) = Inr out'"
      by (auto simp: unicast_loop.simps [of _ _ _ len data read_size] split: sum.splits)
    from "1.IH" [OF True it refl refl rec] unicast_iter_consumes [OF it] True show ?thesis
      by clarsimp linarith
  qed
qed

lemma labeled_loop_bound:
  "labeled_loop ntop6 parser isIPv4 len data read_size e out = Inr out'
     \<Longrightarrow> length out' \<le> length out + (len - read_size)"
proof (induction ntop6 parser isIPv4 len data read_size e out rule: labeled_loop.induct)
  case (1 ntop6 parser isIPv4 len data read_size e out)
  show ?case
  proof (cases "read_size < len")
    case False
    with "1.prems" show ?thesis
      by (simp add: labeled_loop.simps [of _ _ _ len data read_size])
  next
    case True
    show ?thesis
    proof (cases "labeled_iter ntop6 parser isIPv4 len data read_size e")
      case (Inl err)
      with True "1.prems" show ?thesis
        by (simp add: labeled_loop.simps [of _ _ _ len data read_size])
    next
      case (Inr r)
      show ?thesis
      proof (cases r)
        case None
        with Inr True "1.prems" show ?thesis
          by (simp add: labeled_loop.simps [of _ _ _ len data read_size])
      next
        case (Some t)
        obtain data1 rs1 e1 where t: "t = (data1, rs1, e1)"
          by (cases t)
        from Inr Some t have
          it: "labeled_iter ntop6 parser isIPv4 len data read_size e = Inr (Some (data1, rs1, e1))"
          by simp
        with True "1.prems" have
          rec: "labeled_loop ntop6 parser isIPv4 len data1 (rs1 + 1) e1 (out @ [e1]) = Inr out'"
          by (simp add: labeled_loop.simps [of _ _ _ len data read_size])
        from "1.IH" [OF True it refl refl refl rec] labeled_iter_consumes [OF it] True
        show ?thesis by clarsimp linarith
      qed
    qed
  qed
qed


lemma parseNlriData_IPv4IPv6_bound:
  "parseNlriData_IPv4IPv6 ntop6 parser isIPv4 span len out = Inr out'
     \<Longrightarrow> length out' \<le> length out + unat len"
  by (auto simp: parseNlriData_IPv4IPv6_def split: option.splits if_splits
           dest!: unicast_loop_bound)

lemma parseNlriData_LabelIPv4IPv6_bound:
  "parseNlriData_LabelIPv4IPv6 ntop6 parser isIPv4 span len out = Inr out'
     \<Longrightarrow> length out' \<le> length out + unat len"
  by (auto simp: parseNlriData_LabelIPv4IPv6_def split: option.splits if_splits
           dest!: labeled_loop_bound)

lemma nlri_list_attrs_next_hop: "nlri_list (attrs_next_hop u ip_char) = nlri_list u"
  by (simp add: attrs_next_hop_def Let_def)

lemma parseAfi_bound:
  assumes "parseAfi ntop6 parser nl update = Inr update'"
  shows "length (nlri_list update') \<le> length (nlri_list update) + unat (nlri_len nl)"
  using assms
  by (auto simp: parseAfi_def parseAfi_IPv4IPv6_def Let_def nlri_list_attrs_next_hop
           split: if_splits sum.splits
           dest!: parseNlriData_IPv4IPv6_bound parseNlriData_LabelIPv4IPv6_bound)

lemma unat_nlri_len:
  assumes "0 \<le> a"
  shows "unat (word_of_int a :: uint16_t) \<le> nat a"
proof -
  have "uint (word_of_int a :: uint16_t) = take_bit LENGTH(16) a"
    by (rule uint_word_of_int_eq)
  also have "\<dots> \<le> a"
    using assms by (simp only: take_bit_int_less_eq_self_iff)
  finally have "nat (uint (word_of_int a :: uint16_t)) \<le> nat a"
    by (rule nat_mono)
  then show ?thesis
    by (simp only: unat_eq_nat_uint)
qed

lemma parseReachNlriAttr_bound:
  assumes "parseReachNlriAttr ntop6 parser attr_len data update = Inr update'"
  shows "length (nlri_list update') \<le> length (nlri_list update) + nat attr_len"
proof (cases data rule: header_cases)
  case short
  with assms parseReachNlriAttr_short [of data ntop6 parser attr_len update] show ?thesis
    by auto
next
  case (long a0 a1 s nh rest)
  let ?a = "attr_len - 2 - 1 - 1 - uint nh - 1"
  show ?thesis
  proof (cases "?a < 0")
    case True
    with assms long show ?thesis
      by (auto simp: parseReachNlriAttr_long split: list.splits if_splits)
  next
    case False
    with assms long obtain nl where
      p: "parseAfi ntop6 parser nl update = Inr update'" and n: "nlri_len nl = word_of_int ?a"
      by (auto simp: parseReachNlriAttr_long split: list.splits if_splits)
    have "0 \<le> uint nh" by simp
    with False have "nat ?a \<le> nat attr_len" by linarith
    with parseAfi_bound [OF p] n unat_nlri_len [of ?a] False show ?thesis
      by simp
  qed
qed

text \<open>
  Claim C9. Every function of the model is total (each loop is defined with a measure
  that decreases: \<open>len - read_size\<close> for the prefix loops, \<open>addr_bytes\<close> for the label
  loop), so the decode of any attribute ends. An iteration of either prefix loop that
  returns has consumed at least one octet, and as many octets as \<open>read_size\<close> grew by,
  the loop increment included; hence a decoder appends at most \<open>len\<close> entries, and the
  decode of an attribute at most as many as its declared length.
\<close>

theorem C9_decode_bounded:
  "(\<forall>data' read_size' e'.
      unicast_iter ntop6 parser isIPv4 len data read_size e = Inr (data', read_size', e') \<longrightarrow>
      length data' < length data \<and> length data - length data' = read_size' + 1 - read_size) \<and>
   (\<forall>data' read_size' e'.
      labeled_iter ntop6 parser isIPv4 len data read_size e = Inr (Some (data', read_size', e')) \<longrightarrow>
      length data' < length data \<and> length data - length data' = read_size' + 1 - read_size) \<and>
   (\<forall>out'. parseNlriData_IPv4IPv6 ntop6 parser isIPv4 span nlen out = Inr out' \<longrightarrow>
      length out' \<le> length out + unat nlen) \<and>
   (\<forall>out'. parseNlriData_LabelIPv4IPv6 ntop6 parser isIPv4 span nlen out = Inr out' \<longrightarrow>
      length out' \<le> length out + unat nlen) \<and>
   (\<forall>update'. parseReachNlriAttr ntop6 parser attr_len attr update = Inr update' \<longrightarrow>
      length (nlri_list update') \<le> length (nlri_list update) + nat attr_len)"
proof (intro conjI allI impI)
  fix data' read_size' e'
  assume "unicast_iter ntop6 parser isIPv4 len data read_size e = Inr (data', read_size', e')"
  from unicast_iter_consumes [OF this]
  have "read_size \<le> read_size'" and "length data = length data' + (read_size' + 1 - read_size)"
    by simp_all
  then show "length data' < length data"
    and "length data - length data' = read_size' + 1 - read_size"
    by linarith+
next
  fix data' read_size' e'
  assume "labeled_iter ntop6 parser isIPv4 len data read_size e = Inr (Some (data', read_size', e'))"
  from labeled_iter_consumes [OF this]
  have "read_size \<le> read_size'" and "length data = length data' + (read_size' + 1 - read_size)"
    by simp_all
  then show "length data' < length data"
    and "length data - length data' = read_size' + 1 - read_size"
    by linarith+
next
  fix out'
  assume "parseNlriData_IPv4IPv6 ntop6 parser isIPv4 span nlen out = Inr out'"
  then show "length out' \<le> length out + unat nlen"
    by (rule parseNlriData_IPv4IPv6_bound)
next
  fix out'
  assume "parseNlriData_LabelIPv4IPv6 ntop6 parser isIPv4 span nlen out = Inr out'"
  then show "length out' \<le> length out + unat nlen"
    by (rule parseNlriData_LabelIPv4IPv6_bound)
next
  fix update'
  assume "parseReachNlriAttr ntop6 parser attr_len attr update = Inr update'"
  then show "length (nlri_list update') \<le> length (nlri_list update) + nat attr_len"
    by (rule parseReachNlriAttr_bound)
qed

theorem C9_decode_bounded_witness:
  "\<exists>out'. parseNlriData_IPv4IPv6 (\<lambda>_. []) (\<lambda>_ _. False) True (Some [8, 10, 8, 20]) 4 [] = Inr out' \<and>
          length out' \<le> 4"
proof -
  have "\<not> isl (parseNlriData_IPv4IPv6 (\<lambda>_. []) (\<lambda>_ _. False) True (Some [8, 10, 8, 20]) 4 [])"
    by (simp add: eval_defs)
  then obtain out' where
    r: "parseNlriData_IPv4IPv6 (\<lambda>_. []) (\<lambda>_ _. False) True (Some [8, 10, 8, 20]) 4 [] = Inr out'"
    by (cases "parseNlriData_IPv4IPv6 (\<lambda>_. []) (\<lambda>_ _. False) True (Some [8, 10, 8, 20]) 4 []")
       simp_all
  from C9_decode_bounded [of "\<lambda>_. []" "\<lambda>_ _. False" True _ _ _ _ "Some [8, 10, 8, 20]" 4 "[]"] r
  have "length out' \<le> 4"
    by simp
  with r show ?thesis by blast
qed

section \<open>The working record of the prefix loops\<close>

lemma unicast_prefix_nlri:
  assumes "unicast_prefix ntop6 isIPv4 data read_size e = Inr (data', read_size', e')"
  shows "\<exists>a b c. e' = nlri_push_back (nlri_push_back (nlri_push_back e
                       LIB_NLRI_PREFIX_LENGTH a) LIB_NLRI_PREFIX b) LIB_NLRI_PREFIX_BIN c"
  using assms
  by (auto simp: unicast_prefix_def Let_def split: list.splits sum.splits)

lemma unicast_iter_grows:
  assumes "unicast_iter ntop6 parser isIPv4 len data read_size e = Inr (data', read_size', e')"
  shows "grows e e'"
proof -
  from assms obtain p a b c where
    "e' = nlri_push_back (nlri_push_back (nlri_push_back (nlri_push_back e
            LIB_NLRI_PATH_ID p) LIB_NLRI_PREFIX_LENGTH a) LIB_NLRI_PREFIX b) LIB_NLRI_PREFIX_BIN c"
    by (auto simp: unicast_iter_def split: sum.splits dest!: unicast_prefix_nlri)
  then show ?thesis
    by (simp add: grows_def nlri_get_push_back)
qed

lemma label_loop_nlri:
  "label_loop data addr_bytes prefix_len label read_size e =
     Inr (data', addr_bytes', prefix_len', label', read_size', e')
   \<Longrightarrow> (\<forall>k. prefix (nlri_get e k) (nlri_get e' k)) \<and>
       nlri_get e' LIB_NLRI_PATH_ID = nlri_get e LIB_NLRI_PATH_ID \<and>
       nlri_get e' LIB_NLRI_PREFIX = nlri_get e LIB_NLRI_PREFIX \<and>
       nlri_get e' LIB_NLRI_PREFIX_BIN = nlri_get e LIB_NLRI_PREFIX_BIN"
proof (induction data addr_bytes prefix_len label read_size e rule: label_loop.induct)
  case (1 data addr_bytes prefix_len label read_size e)
  show ?case
  proof (cases "3 \<le> addr_bytes")
    case False
    with "1.prems" show ?thesis
      by (simp add: label_loop.simps [of data addr_bytes])
  next
    case True
    from True "1.prems" obtain label1 where m: "memcpy label data 3 = Inr label1"
      by (auto simp: label_loop.simps [of data addr_bytes] split: sum.splits)
    let ?pl = "prefix_len - 24"
    let ?l2 = "SWAP_BYTES label1"
    let ?e1 = "nlri_push_back e LIB_NLRI_PREFIX_LENGTH (dec (unat ?pl))"
    let ?e2 = "nlri_push_back ?e1 LIB_NLRI_LABELS (dec (unat (label_decode_value ?l2)))"
    have base: "(\<forall>k. prefix (nlri_get e k) (nlri_get ?e2 k)) \<and>
       nlri_get ?e2 LIB_NLRI_PATH_ID = nlri_get e LIB_NLRI_PATH_ID \<and>
       nlri_get ?e2 LIB_NLRI_PREFIX = nlri_get e LIB_NLRI_PREFIX \<and>
       nlri_get ?e2 LIB_NLRI_PREFIX_BIN = nlri_get e LIB_NLRI_PREFIX_BIN"
      by (simp add: nlri_get_push_back)
    show ?thesis
    proof (cases "label_decode_bos ?l2 = 1 \<or> label_data ?l2 = 0x80000000")
      case stop: True
      with True m "1.prems" have "e' = ?e2"
        by (auto simp: label_loop.simps [of data addr_bytes] Let_def)
      with base show ?thesis by simp
    next
      case go: False
      with True m "1.prems" have
        "label_loop (drop 3 data) (addr_bytes - 3) ?pl ?l2 (read_size + 3) ?e2 =
           Inr (data', addr_bytes', prefix_len', label', read_size', e')"
        by (simp add: label_loop.simps [of data addr_bytes] Let_def)
      from "1.IH" [OF True m refl refl refl refl go this] base show ?thesis
        by (metis prefix_order.order_trans)
    qed
  qed
qed

lemma labeled_prefix_nlri:
  assumes "labeled_prefix ntop6 isIPv4 data read_size e = Inr (data', read_size', e')"
  shows "\<exists>e2 b c. e' = nlri_push_back (nlri_push_back e2 LIB_NLRI_PREFIX b) LIB_NLRI_PREFIX_BIN c \<and>
           (\<forall>k. prefix (nlri_get e k) (nlri_get e2 k)) \<and>
           nlri_get e2 LIB_NLRI_PATH_ID = nlri_get e LIB_NLRI_PATH_ID \<and>
           nlri_get e2 LIB_NLRI_PREFIX = nlri_get e LIB_NLRI_PREFIX \<and>
           nlri_get e2 LIB_NLRI_PREFIX_BIN = nlri_get e LIB_NLRI_PREFIX_BIN"
  using assms unfolding labeled_prefix_def Let_def
  by (auto split: list.splits sum.splits dest!: label_loop_nlri) blast

lemma labeled_iter_grows:
  assumes "labeled_iter ntop6 parser isIPv4 len data read_size e = Inr (Some (data', read_size', e'))"
  shows "grows e e'"
proof -
  from assms obtain p data1 rs1 where
    "labeled_prefix ntop6 isIPv4 data1 rs1 (nlri_push_back e LIB_NLRI_PATH_ID p) =
       Inr (data', read_size', e')"
    by (auto simp: labeled_iter_def Let_def split: sum.splits if_splits)
  from labeled_prefix_nlri [OF this] obtain e2 b c where
    e': "e' = nlri_push_back (nlri_push_back e2 LIB_NLRI_PREFIX b) LIB_NLRI_PREFIX_BIN c" and
    pre: "\<forall>k. prefix (nlri_get (nlri_push_back e LIB_NLRI_PATH_ID p) k) (nlri_get e2 k)" and
    same: "nlri_get e2 LIB_NLRI_PATH_ID = nlri_get (nlri_push_back e LIB_NLRI_PATH_ID p) LIB_NLRI_PATH_ID"
      "nlri_get e2 LIB_NLRI_PREFIX = nlri_get (nlri_push_back e LIB_NLRI_PATH_ID p) LIB_NLRI_PREFIX"
      "nlri_get e2 LIB_NLRI_PREFIX_BIN = nlri_get (nlri_push_back e LIB_NLRI_PATH_ID p) LIB_NLRI_PREFIX_BIN"
    by blast
  have "prefix (nlri_get e k) (nlri_get e' k)" for k
  proof -
    have "prefix (nlri_get e k) (nlri_get (nlri_push_back e LIB_NLRI_PATH_ID p) k)"
      by (simp add: nlri_get_push_back)
    also have "prefix \<dots> (nlri_get e2 k)"
      using pre by blast
    also have "prefix \<dots> (nlri_get e' k)"
      by (simp add: e' nlri_get_push_back)
    finally show ?thesis .
  qed
  with same show ?thesis
    by (simp add: grows_def e' nlri_get_push_back)
qed


lemma unicast_loop_chain:
  "unicast_loop ntop6 parser isIPv4 len data read_size e out = Inr out'
     \<Longrightarrow> \<exists>es. out' = out @ es \<and> chain e es"
proof (induction ntop6 parser isIPv4 len data read_size e out rule: unicast_loop.induct)
  case (1 ntop6 parser isIPv4 len data read_size e out)
  show ?case
  proof (cases "read_size < len")
    case False
    with "1.prems" show ?thesis
      by (simp add: unicast_loop.simps [of _ _ _ len data read_size])
  next
    case True
    with "1.prems" obtain data1 rs1 e1 where
      it: "unicast_iter ntop6 parser isIPv4 len data read_size e = Inr (data1, rs1, e1)" and
      rec: "unicast_loop ntop6 parser isIPv4 len data1 (rs1 + 1) e1 (out @ [e1]) = Inr out'"
      by (auto simp: unicast_loop.simps [of _ _ _ len data read_size] split: sum.splits)
    from "1.IH" [OF True it refl refl rec] obtain es where
      "out' = (out @ [e1]) @ es" "chain e1 es"
      by blast
    with unicast_iter_grows [OF it] have "out' = out @ (e1 # es) \<and> chain e (e1 # es)"
      by simp
    then show ?thesis by blast
  qed
qed

lemma labeled_loop_chain:
  "labeled_loop ntop6 parser isIPv4 len data read_size e out = Inr out'
     \<Longrightarrow> \<exists>es. out' = out @ es \<and> chain e es"
proof (induction ntop6 parser isIPv4 len data read_size e out rule: labeled_loop.induct)
  case (1 ntop6 parser isIPv4 len data read_size e out)
  show ?case
  proof (cases "read_size < len")
    case False
    with "1.prems" show ?thesis
      by (simp add: labeled_loop.simps [of _ _ _ len data read_size])
  next
    case True
    show ?thesis
    proof (cases "labeled_iter ntop6 parser isIPv4 len data read_size e")
      case (Inl err)
      with True "1.prems" show ?thesis
        by (simp add: labeled_loop.simps [of _ _ _ len data read_size])
    next
      case (Inr r)
      show ?thesis
      proof (cases r)
        case None
        with Inr True "1.prems" show ?thesis
          by (simp add: labeled_loop.simps [of _ _ _ len data read_size])
      next
        case (Some t)
        obtain data1 rs1 e1 where t: "t = (data1, rs1, e1)"
          by (cases t)
        from Inr Some t have
          it: "labeled_iter ntop6 parser isIPv4 len data read_size e = Inr (Some (data1, rs1, e1))"
          by simp
        with True "1.prems" have
          rec: "labeled_loop ntop6 parser isIPv4 len data1 (rs1 + 1) e1 (out @ [e1]) = Inr out'"
          by (simp add: labeled_loop.simps [of _ _ _ len data read_size])
        from "1.IH" [OF True it refl refl refl rec] obtain es where
          "out' = (out @ [e1]) @ es" "chain e1 es"
          by blast
        with labeled_iter_grows [OF it] have "out' = out @ (e1 # es) \<and> chain e (e1 # es)"
          by simp
        then show ?thesis by blast
      qed
    qed
  qed
qed

lemma chain_nth:
  "chain e es \<Longrightarrow> Suc i < length es \<Longrightarrow> grows (es ! i) (es ! Suc i)"
proof (induction es arbitrary: e i)
  case Nil
  then show ?case by simp
next
  case (Cons x xs)
  show ?case
  proof (cases i)
    case 0
    with Cons.prems show ?thesis
      by (cases xs) simp_all
  next
    case (Suc j)
    with Cons.prems Cons.IH [of x j] show ?thesis
      by simp
  qed
qed

lemma chain_length:
  "chain e es \<Longrightarrow> i < length es \<Longrightarrow>
     length (nlri_get (es ! i) LIB_NLRI_PATH_ID) = length (nlri_get e LIB_NLRI_PATH_ID) + Suc i \<and>
     length (nlri_get (es ! i) LIB_NLRI_PREFIX) = length (nlri_get e LIB_NLRI_PREFIX) + Suc i \<and>
     length (nlri_get (es ! i) LIB_NLRI_PREFIX_BIN) = length (nlri_get e LIB_NLRI_PREFIX_BIN) + Suc i"
proof (induction es arbitrary: e i)
  case Nil
  then show ?case by simp
next
  case (Cons x xs)
  show ?case
  proof (cases i)
    case 0
    with Cons.prems show ?thesis
      by (simp add: grows_def)
  next
    case (Suc j)
    with Cons.prems Cons.IH [of x j] show ?thesis
      by (simp add: grows_def)
  qed
qed

text \<open>
  Claim C10. In one call of either decoder the entries \<open>es\<close> that are appended form a
  chain: under every key, the list of an entry is an initial segment of the list of the
  next entry, and the entry at index \<open>i\<close> holds \<open>i + 1\<close> path identifiers, prefix texts
  and binary prefixes, one for each iteration up to its own.
\<close>

theorem C10_working_record_reused:
  assumes "parseNlriData_IPv4IPv6 ntop6 parser isIPv4 span len out = Inr out' \<or>
           parseNlriData_LabelIPv4IPv6 ntop6 parser isIPv4 span len out = Inr out'"
  shows "\<exists>es. out' = out @ es \<and>
           (\<forall>i. Suc i < length es \<longrightarrow>
                (\<forall>k. prefix (nlri_get (es ! i) k) (nlri_get (es ! Suc i) k))) \<and>
           (\<forall>i < length es.
                length (nlri_get (es ! i) LIB_NLRI_PATH_ID) = Suc i \<and>
                length (nlri_get (es ! i) LIB_NLRI_PREFIX) = Suc i \<and>
                length (nlri_get (es ! i) LIB_NLRI_PREFIX_BIN) = Suc i)"
proof -
  from assms obtain e es where
    e: "nlri e = Map.empty" and es: "out' = out @ es" "chain e es"
  proof
    assume a: "parseNlriData_IPv4IPv6 ntop6 parser isIPv4 span len out = Inr out'"
    show ?thesis
    proof (cases "span = None \<or> len \<le> 0")
      case True
      with a have "out' = out @ []"
        by (auto simp: parseNlriData_IPv4IPv6_def split: option.splits)
      then show ?thesis
        using that [of "\<lparr>nlri_afi = 0, nlri_safi = 0, nlri_type = NLRI_TYPE_NONE, nlri = Map.empty\<rparr>" "[]"]
        by simp
    next
      case False
      with a obtain d e where
        "unicast_loop ntop6 parser isIPv4 (unat len) d 0 e out = Inr out'" "nlri e = Map.empty"
        by (auto simp: parseNlriData_IPv4IPv6_def split: option.splits if_splits)
      with unicast_loop_chain [of ntop6 parser isIPv4 "unat len" d 0 e out out'] that
      show ?thesis by blast
    qed
  next
    assume a: "parseNlriData_LabelIPv4IPv6 ntop6 parser isIPv4 span len out = Inr out'"
    show ?thesis
    proof (cases "span = None \<or> len \<le> 0")
      case True
      with a have "out' = out @ []"
        by (auto simp: parseNlriData_LabelIPv4IPv6_def split: option.splits)
      then show ?thesis
        using that [of "\<lparr>nlri_afi = 0, nlri_safi = 0, nlri_type = NLRI_TYPE_NONE, nlri = Map.empty\<rparr>" "[]"]
        by simp
    next
      case False
      with a obtain d e where
        "labeled_loop ntop6 parser isIPv4 (unat len) d 0 e out = Inr out'" "nlri e = Map.empty"
        by (auto simp: parseNlriData_LabelIPv4IPv6_def split: option.splits if_splits)
      with labeled_loop_chain [of ntop6 parser isIPv4 "unat len" d 0 e out out'] that
      show ?thesis by blast
    qed
  qed
  from e have empty: "nlri_get e k = []" for k
    by (simp add: nlri_get_def)
  have "\<forall>k. prefix (nlri_get (es ! i) k) (nlri_get (es ! Suc i) k)" if "Suc i < length es" for i
    using chain_nth [OF es(2) that] by (simp add: grows_def)
  moreover have "length (nlri_get (es ! i) LIB_NLRI_PATH_ID) = Suc i \<and>
                 length (nlri_get (es ! i) LIB_NLRI_PREFIX) = Suc i \<and>
                 length (nlri_get (es ! i) LIB_NLRI_PREFIX_BIN) = Suc i" if "i < length es" for i
    using chain_length [OF es(2) that] by (simp add: empty)
  ultimately show ?thesis
    using es(1) by blast
qed

theorem C10_working_record_reused_witness:
  "\<exists>out'. parseNlriData_IPv4IPv6 (\<lambda>_. []) (\<lambda>_ _. False) True (Some [8, 10, 8, 20]) 4 [] = Inr out' \<and>
          length out' = 2 \<and>
          prefix (nlri_get (out' ! 0) LIB_NLRI_PREFIX) (nlri_get (out' ! 1) LIB_NLRI_PREFIX) \<and>
          length (nlri_get (out' ! 1) LIB_NLRI_PATH_ID) = 2"
proof -
  let ?r = "parseNlriData_IPv4IPv6 (\<lambda>_. []) (\<lambda>_ _. False) True (Some [8, 10, 8, 20]) 4 []"
  have "\<not> isl ?r \<and> length (projr ?r) = 2"
    by (simp add: eval_defs)
  then obtain out' where r: "?r = Inr out'" and l: "length out' = 2"
    by (cases ?r) simp_all
  from C10_working_record_reused [of "\<lambda>_. []" "\<lambda>_ _. False" True "Some [8, 10, 8, 20]" 4 "[]" out'] r
  have c: "(\<forall>i. Suc i < length out' \<longrightarrow>
              (\<forall>k. prefix (nlri_get (out' ! i) k) (nlri_get (out' ! Suc i) k))) \<and>
           (\<forall>i < length out'. length (nlri_get (out' ! i) LIB_NLRI_PATH_ID) = Suc i)"
    by auto
  from c l have "prefix (nlri_get (out' ! 0) LIB_NLRI_PREFIX) (nlri_get (out' ! Suc 0) LIB_NLRI_PREFIX)"
    by simp
  moreover from c l have "length (nlri_get (out' ! 1) LIB_NLRI_PATH_ID) = Suc 1"
    by simp
  ultimately show ?thesis
    using r l by simp
qed


end
